theory Spec2Isabelle
  imports Main "HOL-Library.Word"
begin

unbundle bit_operations_syntax

section \<open>Fixed-point constants and buffers\<close>

type_synonym u8 = "8 word"
type_synonym u16 = "16 word"
type_synonym u32 = "32 word"
type_synonym u64 = "64 word"

text \<open>\<^verbatim>\<open>typedef std::vector<uint8_t> ByteVec;\<close>\<close>

type_synonym ByteVec = "u8 list"

text \<open>\<^verbatim>\<open>static int const kProbBits = 12; static uint32_t const kProbMax = 1u << kProbBits;\<close>\<close>

definition kProbBits :: nat where
  "kProbBits = 12"

definition kProbMax :: u32 where
  "kProbMax = push_bit kProbBits 1"

text \<open>
  The program has two ways of not returning normally. A failed \<^verbatim>\<open>assert\<close> is a check
  the code makes and reports (the process is aborted with a diagnostic). An index
  beyond the end of a \<^verbatim>\<open>std::vector\<close> or of a built-in array through \<^verbatim>\<open>operator[]\<close>
  is not checked at all: C++ leaves the behaviour undefined, nothing is thrown and
  nothing is reported to the caller.
\<close>

datatype error = AssertionFailure | UndefinedBehaviour

fun reported :: "error \<Rightarrow> bool" where
  "reported AssertionFailure = True"
| "reported UndefinedBehaviour = False"

section \<open>The interval subdivision and the renormalization test\<close>

text \<open>
  \<^verbatim>\<open>uint32_t x = lo + ((uint64_t(hi - lo) * prob) >> kProbBits);\<close>
  The difference is taken in 32 bits, widened to 64 bits, multiplied by the widened
  probability, shifted, added to the widened \<^verbatim>\<open>lo\<close>, and the sum is narrowed to 32 bits.
\<close>

definition midpoint :: "u32 \<Rightarrow> u32 \<Rightarrow> u32 \<Rightarrow> u32" where
  "midpoint l h prob =
     ucast ((ucast l :: u64) + drop_bit kProbBits ((ucast (h - l) :: u64) * (ucast prob :: u64)))"

text \<open>\<^verbatim>\<open>(lo ^ hi) < (1u << 24)\<close>\<close>

definition renorm_guard :: "u32 \<Rightarrow> u32 \<Rightarrow> bool" where
  "renorm_guard l h \<longleftrightarrow> (l XOR h) < push_bit 24 1"

text \<open>\<^verbatim>\<open>lo <<= 8;\<close> and \<^verbatim>\<open>hi = (hi << 8) | 0xff;\<close>\<close>

definition shl_lo :: "u32 \<Rightarrow> u32" where
  "shl_lo l = push_bit 8 l"

definition shl_hi :: "u32 \<Rightarrow> u32" where
  "shl_hi h = push_bit 8 h OR 0xff"

text \<open>The number of iterations of the renormalization loop that remain, capped at 4.\<close>

definition renorm_left :: "u32 \<Rightarrow> u32 \<Rightarrow> nat" where
  "renorm_left l h =
     (if \<not> renorm_guard l h then 0
      else if \<not> renorm_guard (shl_lo l) (shl_hi h) then 1
      else if \<not> renorm_guard (shl_lo (shl_lo l)) (shl_hi (shl_hi h)) then 2
      else if \<not> renorm_guard (shl_lo (shl_lo (shl_lo l))) (shl_hi (shl_hi (shl_hi h))) then 3
      else 4)"

lemma shl_lo4: "shl_lo (shl_lo (shl_lo (shl_lo l))) = 0"
  unfolding shl_lo_def
  by (rule bit_eqI) (auto simp: bit_simps)

lemma byte_mask: "(0xff :: u32) = mask 8"
  by (simp add: mask_eq_exp_minus_1)

lemma shl_hi4: "shl_hi (shl_hi (shl_hi (shl_hi h))) = - 1"
  unfolding shl_hi_def byte_mask
  by (rule bit_eqI) (auto simp: bit_simps)

lemma renorm_guard_stops: "\<not> renorm_guard 0 (- 1)"
  by (simp add: renorm_guard_def)

lemma renorm_left_decreases:
  "renorm_guard l h \<Longrightarrow> renorm_left (shl_lo l) (shl_hi h) < renorm_left l h"
  by (simp add: renorm_left_def shl_lo4 shl_hi4 renorm_guard_stops)

section \<open>The encoder\<close>

record BinArithEncoder =
  enc_lo :: u32
  enc_hi :: u32
  enc_bytes :: ByteVec

text \<open>\<^verbatim>\<open>explicit BinArithEncoder(ByteVec &target) : lo(0), hi(~0u), bytes(target) { }\<close>
  The record holds the contents of the referenced vector.\<close>

definition BinArithEncoder_init :: "ByteVec \<Rightarrow> BinArithEncoder" where
  "BinArithEncoder_init target = \<lparr>enc_lo = 0, enc_hi = NOT 0, enc_bytes = target\<rparr>"

text \<open>The subdivision step of \<^verbatim>\<open>encode\<close>: \<^verbatim>\<open>if (bit) hi = x; else lo = x + 1;\<close>\<close>

definition enc_split :: "BinArithEncoder \<Rightarrow> int \<Rightarrow> u32 \<Rightarrow> BinArithEncoder" where
  "enc_split e b prob =
     (let x = midpoint (enc_lo e) (enc_hi e) prob
      in if b \<noteq> 0 then e\<lparr>enc_hi := x\<rparr> else e\<lparr>enc_lo := x + 1\<rparr>)"

text \<open>One iteration of the body of the renormalization loop of \<^verbatim>\<open>encode\<close>.\<close>

definition enc_shift :: "BinArithEncoder \<Rightarrow> BinArithEncoder" where
  "enc_shift e =
     \<lparr>enc_lo = shl_lo (enc_lo e), enc_hi = shl_hi (enc_hi e),
      enc_bytes = enc_bytes e @ [ucast (drop_bit 24 (enc_lo e))]\<rparr>"

function enc_renorm :: "BinArithEncoder \<Rightarrow> BinArithEncoder" where
  "enc_renorm e =
     (if renorm_guard (enc_lo e) (enc_hi e) then enc_renorm (enc_shift e) else e)"
  by pat_completeness auto
termination
  by (relation "measure (\<lambda>e. renorm_left (enc_lo e) (enc_hi e))")
     (simp_all add: enc_shift_def renorm_left_decreases)

declare enc_renorm.simps [simp del]

definition BinArithEncoder_encode :: "BinArithEncoder \<Rightarrow> int \<Rightarrow> u32 \<Rightarrow> BinArithEncoder" where
  "BinArithEncoder_encode e b prob = enc_renorm (enc_split e b prob)"

text \<open>The destructor: four times \<^verbatim>\<open>bytes.push_back(lo >> 24); lo <<= 8;\<close>\<close>

fun enc_flush :: "nat \<Rightarrow> BinArithEncoder \<Rightarrow> BinArithEncoder" where
  "enc_flush 0 e = e"
| "enc_flush (Suc n) e =
     enc_flush n (e\<lparr>enc_bytes := enc_bytes e @ [ucast (drop_bit 24 (enc_lo e))],
                    enc_lo := push_bit 8 (enc_lo e)\<rparr>)"

definition BinArithEncoder_finish :: "BinArithEncoder \<Rightarrow> ByteVec" where
  "BinArithEncoder_finish e = enc_bytes (enc_flush 4 e)"

section \<open>The decoder\<close>

record BinArithDecoder =
  dec_code :: u32
  dec_lo :: u32
  dec_hi :: u32
  dec_bytes :: ByteVec
  dec_read_pos :: nat

text \<open>\<^verbatim>\<open>code = (code << 8) | bytes[read_pos++];\<close> with the unchecked index written out.\<close>

definition dec_next :: "BinArithDecoder \<Rightarrow> error + BinArithDecoder" where
  "dec_next d =
     (if dec_read_pos d < length (dec_bytes d)
      then Inr (d\<lparr>dec_code := push_bit 8 (dec_code d) OR ucast (dec_bytes d ! dec_read_pos d),
                  dec_read_pos := dec_read_pos d + 1\<rparr>)
      else Inl UndefinedBehaviour)"

fun dec_fill :: "nat \<Rightarrow> BinArithDecoder \<Rightarrow> error + BinArithDecoder" where
  "dec_fill 0 d = Inr d"
| "dec_fill (Suc n) d = (case dec_next d of Inl err \<Rightarrow> Inl err | Inr d' \<Rightarrow> dec_fill n d')"

definition BinArithDecoder_init :: "ByteVec \<Rightarrow> error + BinArithDecoder" where
  "BinArithDecoder_init source =
     dec_fill 4 \<lparr>dec_code = 0, dec_lo = 0, dec_hi = NOT 0, dec_bytes = source, dec_read_pos = 0\<rparr>"

text \<open>The subdivision step of \<^verbatim>\<open>decode\<close>.\<close>

definition dec_split :: "BinArithDecoder \<Rightarrow> u32 \<Rightarrow> int \<times> BinArithDecoder" where
  "dec_split d prob =
     (let x = midpoint (dec_lo d) (dec_hi d) prob
      in if dec_code d \<le> x then (1, d\<lparr>dec_hi := x\<rparr>) else (0, d\<lparr>dec_lo := x + 1\<rparr>))"

text \<open>One iteration of the body of the renormalization loop of \<^verbatim>\<open>decode\<close>.\<close>

definition dec_shift :: "BinArithDecoder \<Rightarrow> error + BinArithDecoder" where
  "dec_shift d =
     (case dec_next d of
        Inl err \<Rightarrow> Inl err
      | Inr d' \<Rightarrow> Inr (d'\<lparr>dec_lo := shl_lo (dec_lo d'), dec_hi := shl_hi (dec_hi d')\<rparr>))"

lemma dec_shift_bounds:
  "dec_shift d = Inr d' \<Longrightarrow> dec_lo d' = shl_lo (dec_lo d) \<and> dec_hi d' = shl_hi (dec_hi d)"
  by (auto simp: dec_shift_def dec_next_def split: if_splits)

function dec_renorm :: "BinArithDecoder \<Rightarrow> error + BinArithDecoder" where
  "dec_renorm d =
     (if renorm_guard (dec_lo d) (dec_hi d)
      then (case dec_shift d of Inl err \<Rightarrow> Inl err | Inr d' \<Rightarrow> dec_renorm d')
      else Inr d)"
  by pat_completeness auto
termination
  by (relation "measure (\<lambda>d. renorm_left (dec_lo d) (dec_hi d))")
     (auto dest!: dec_shift_bounds simp: renorm_left_decreases)

declare dec_renorm.simps [simp del]

definition BinArithDecoder_decode :: "BinArithDecoder \<Rightarrow> u32 \<Rightarrow> error + (int \<times> BinArithDecoder)" where
  "BinArithDecoder_decode d prob =
     (case dec_split d prob of (b, d1) \<Rightarrow>
        (case dec_renorm d1 of Inl err \<Rightarrow> Inl err | Inr d2 \<Rightarrow> Inr (b, d2)))"

section \<open>The adaptive binary model\<close>

text \<open>
  \<^verbatim>\<open>template<int Inertia> struct BinShiftModel { uint16_t prob; ... }\<close>
  The template parameter is an argument of the operations.
\<close>

record BinShiftModel =
  prob :: u16

text \<open>\<^verbatim>\<open>BinShiftModel() : prob(kProbMax / 2) {}\<close>\<close>

definition BinShiftModel_init :: BinShiftModel where
  "BinShiftModel_init = \<lparr>prob = ucast (kProbMax div 2)\<rparr>"

text \<open>
  \<^verbatim>\<open>if (bit) prob += (kProbMax - prob) >> Inertia; else prob -= prob >> Inertia;\<close>
  The operands are widened to 32 bits, the result is narrowed to 16 bits. For a shift
  count of 32 or more C++ defines no result; \<open>drop_bit\<close> gives the mathematical
  shift there, which is 0.
\<close>

definition adapt :: "nat \<Rightarrow> BinShiftModel \<Rightarrow> int \<Rightarrow> BinShiftModel" where
  "adapt Inertia m b =
     (if b \<noteq> 0
      then m\<lparr>prob := ucast ((ucast (prob m) :: u32) + drop_bit Inertia (kProbMax - ucast (prob m)))\<rparr>
      else m\<lparr>prob := ucast ((ucast (prob m) :: u32) - drop_bit Inertia (ucast (prob m) :: u32))\<rparr>)"

text \<open>\<^verbatim>\<open>enc.encode(bit, prob); adapt(bit);\<close>\<close>

definition BinShiftModel_encode ::
  "nat \<Rightarrow> BinShiftModel \<Rightarrow> BinArithEncoder \<Rightarrow> int \<Rightarrow> BinShiftModel \<times> BinArithEncoder" where
  "BinShiftModel_encode Inertia m enc b =
     (let enc' = BinArithEncoder_encode enc b (ucast (prob m));
          m' = adapt Inertia m b
      in (m', enc'))"

text \<open>\<^verbatim>\<open>int bit = dec.decode(prob); adapt(bit); return bit;\<close>\<close>

definition BinShiftModel_decode ::
  "nat \<Rightarrow> BinShiftModel \<Rightarrow> BinArithDecoder \<Rightarrow> error + (int \<times> BinShiftModel \<times> BinArithDecoder)" where
  "BinShiftModel_decode Inertia m dec =
     (case BinArithDecoder_decode dec (ucast (prob m)) of
        Inl err \<Rightarrow> Inl err
      | Inr (b, dec') \<Rightarrow> Inr (b, adapt Inertia m b, dec'))"

section \<open>The bit-tree model\<close>

text \<open>
  \<^verbatim>\<open>static size_t const kNumSyms = 1 << NumBits; static size_t const kMSB = kNumSyms / 2;\<close>
  The \<^verbatim>\<open>size_t\<close> values of this model (\<^verbatim>\<open>value\<close>, \<^verbatim>\<open>ctx\<close>) are natural numbers: the
  shift \<^verbatim>\<open>1 << NumBits\<close> is an \<^verbatim>\<open>int\<close> shift, defined up to \<^verbatim>\<open>NumBits = 30\<close>, an
  asserted \<^verbatim>\<open>value\<close> is below \<^verbatim>\<open>kNumSyms\<close> and is doubled \<^verbatim>\<open>NumBits\<close> times, and
  \<^verbatim>\<open>ctx\<close> stays below \<^verbatim>\<open>2 * kNumSyms\<close>, so that nothing reaches \<open>2 ^ 64\<close>.
\<close>

definition kNumSyms :: "nat \<Rightarrow> nat" where
  "kNumSyms NumBits = push_bit NumBits 1"

definition kMSB :: "nat \<Rightarrow> nat" where
  "kMSB NumBits = kNumSyms NumBits div 2"

text \<open>\<^verbatim>\<open>BitModel model[kNumSyms - 1];\<close>, every element default-constructed.\<close>

type_synonym BitTreeModel = "BinShiftModel list"

definition BitTreeModel_init :: "nat \<Rightarrow> BitTreeModel" where
  "BitTreeModel_init NumBits = replicate (kNumSyms NumBits - 1) BinShiftModel_init"

text \<open>
  The loop of \<^verbatim>\<open>encode\<close>. The array \<^verbatim>\<open>model\<close> is indexed without a check; the index
  \<^verbatim>\<open>ctx - 1\<close> is out of range when \<^verbatim>\<open>ctx\<close> is 0 (the subtraction wraps) or beyond the
  array. A failure carries the state in which it happened.
\<close>

function bt_encode_loop ::
  "nat \<Rightarrow> nat \<Rightarrow> BitTreeModel \<times> BinArithEncoder \<Rightarrow> nat \<Rightarrow> nat \<Rightarrow>
     (error \<times> BitTreeModel \<times> BinArithEncoder) + (BitTreeModel \<times> BinArithEncoder)" where
  "bt_encode_loop NumBits Inertia st val ctx =
     (if ctx < kNumSyms NumBits
      then (let b = (if val AND kMSB NumBits \<noteq> 0 then 1 else 0);
                val' = val + val
            in if ctx = 0 \<or> length (fst st) \<le> ctx - 1 then Inl (UndefinedBehaviour, st)
               else (case BinShiftModel_encode Inertia (fst st ! (ctx - 1)) (snd st) b of
                       (m', enc') \<Rightarrow>
                         bt_encode_loop NumBits Inertia ((fst st)[ctx - 1 := m'], enc') val'
                           (ctx + (ctx + nat b))))
      else Inr st)"
  by pat_completeness auto
termination
  by (relation "measure (\<lambda>(NumBits, Inertia, st, val, ctx). kNumSyms NumBits - ctx)") auto

declare bt_encode_loop.simps [simp del]

text \<open>\<^verbatim>\<open>assert(value < kNumSyms); size_t ctx = 1; while (ctx < kNumSyms) ...\<close>\<close>

definition BitTreeModel_encode ::
  "nat \<Rightarrow> nat \<Rightarrow> BitTreeModel \<Rightarrow> BinArithEncoder \<Rightarrow> nat \<Rightarrow>
     (error \<times> BitTreeModel \<times> BinArithEncoder) + (BitTreeModel \<times> BinArithEncoder)" where
  "BitTreeModel_encode NumBits Inertia model enc val =
     (if \<not> val < kNumSyms NumBits then Inl (AssertionFailure, model, enc)
      else bt_encode_loop NumBits Inertia (model, enc) val 1)"

text \<open>The loop of \<^verbatim>\<open>decode\<close>: \<^verbatim>\<open>ctx += ctx + model[ctx - 1].decode(dec);\<close>\<close>

function bt_decode_loop ::
  "nat \<Rightarrow> nat \<Rightarrow> BitTreeModel \<times> BinArithDecoder \<Rightarrow> nat \<Rightarrow>
     error + (nat \<times> BitTreeModel \<times> BinArithDecoder)" where
  "bt_decode_loop NumBits Inertia st ctx =
     (if ctx < kNumSyms NumBits
      then (if ctx = 0 \<or> length (fst st) \<le> ctx - 1 then Inl UndefinedBehaviour
            else (case BinShiftModel_decode Inertia (fst st ! (ctx - 1)) (snd st) of
                    Inl err \<Rightarrow> Inl err
                  | Inr (b, m', dec') \<Rightarrow>
                      bt_decode_loop NumBits Inertia ((fst st)[ctx - 1 := m'], dec')
                        (ctx + (ctx + nat b))))
      else Inr (ctx, st))"
  by pat_completeness auto
termination
  by (relation "measure (\<lambda>(NumBits, Inertia, st, ctx). kNumSyms NumBits - ctx)") auto

declare bt_decode_loop.simps [simp del]

text \<open>\<^verbatim>\<open>return ctx - kNumSyms;\<close>\<close>

definition BitTreeModel_decode ::
  "nat \<Rightarrow> nat \<Rightarrow> BitTreeModel \<Rightarrow> BinArithDecoder \<Rightarrow>
     error + (nat \<times> BitTreeModel \<times> BinArithDecoder)" where
  "BitTreeModel_decode NumBits Inertia model dec =
     (case bt_decode_loop NumBits Inertia (model, dec) 1 of
        Inl err \<Rightarrow> Inl err
      | Inr (ctx, st) \<Rightarrow> Inr (ctx - kNumSyms NumBits, st))"

section \<open>Coding sessions\<close>

text \<open>
  A session with a static probability, as in \<^verbatim>\<open>example_static\<close>: an encoder over an empty
  vector, one \<^verbatim>\<open>encode\<close> call for each bit, the destructor at the end of the block; then
  a decoder over the coded bytes and as many \<^verbatim>\<open>decode\<close> calls as there were bits.
\<close>

fun encode_bits :: "BinArithEncoder \<Rightarrow> u32 \<Rightarrow> int list \<Rightarrow> BinArithEncoder" where
  "encode_bits e p [] = e"
| "encode_bits e p (b # bs) = encode_bits (BinArithEncoder_encode e b p) p bs"

definition encode_static :: "u32 \<Rightarrow> int list \<Rightarrow> ByteVec" where
  "encode_static p source = BinArithEncoder_finish (encode_bits (BinArithEncoder_init []) p source)"

fun decode_bits :: "nat \<Rightarrow> BinArithDecoder \<Rightarrow> u32 \<Rightarrow> error + (int list \<times> BinArithDecoder)" where
  "decode_bits 0 d p = Inr ([], d)"
| "decode_bits (Suc n) d p =
     (case BinArithDecoder_decode d p of
        Inl err \<Rightarrow> Inl err
      | Inr (b, d') \<Rightarrow>
          (case decode_bits n d' p of
             Inl err \<Rightarrow> Inl err
           | Inr (bs, d'') \<Rightarrow> Inr (b # bs, d'')))"

definition decode_static :: "u32 \<Rightarrow> nat \<Rightarrow> ByteVec \<Rightarrow> error + int list" where
  "decode_static p n coded =
     (case BinArithDecoder_init coded of
        Inl err \<Rightarrow> Inl err
      | Inr d \<Rightarrow> (case decode_bits n d p of Inl err \<Rightarrow> Inl err | Inr (bs, d') \<Rightarrow> Inr bs))"

text \<open>
  A session with a bit-tree model, as in \<^verbatim>\<open>example_multisymbol\<close>: a fresh model and an
  encoder over an empty vector, one \<^verbatim>\<open>model.encode\<close> call for each symbol, the destructor;
  then a fresh model, a decoder over the coded bytes and one \<^verbatim>\<open>model.decode\<close> call for
  each symbol.
\<close>

fun bt_encode_all ::
  "nat \<Rightarrow> nat \<Rightarrow> BitTreeModel \<times> BinArithEncoder \<Rightarrow> nat list \<Rightarrow>
     (error \<times> BitTreeModel \<times> BinArithEncoder) + (BitTreeModel \<times> BinArithEncoder)" where
  "bt_encode_all NumBits Inertia st [] = Inr st"
| "bt_encode_all NumBits Inertia st (v # vs) =
     (case BitTreeModel_encode NumBits Inertia (fst st) (snd st) v of
        Inl f \<Rightarrow> Inl f
      | Inr st' \<Rightarrow> bt_encode_all NumBits Inertia st' vs)"

definition encode_multisymbol :: "nat \<Rightarrow> nat \<Rightarrow> nat list \<Rightarrow> error + ByteVec" where
  "encode_multisymbol NumBits Inertia source =
     (case bt_encode_all NumBits Inertia (BitTreeModel_init NumBits, BinArithEncoder_init []) source of
        Inl f \<Rightarrow> Inl (fst f)
      | Inr st \<Rightarrow> Inr (BinArithEncoder_finish (snd st)))"

fun bt_decode_all ::
  "nat \<Rightarrow> nat \<Rightarrow> BitTreeModel \<times> BinArithDecoder \<Rightarrow> nat \<Rightarrow>
     error + (nat list \<times> BitTreeModel \<times> BinArithDecoder)" where
  "bt_decode_all NumBits Inertia st 0 = Inr ([], st)"
| "bt_decode_all NumBits Inertia st (Suc n) =
     (case BitTreeModel_decode NumBits Inertia (fst st) (snd st) of
        Inl err \<Rightarrow> Inl err
      | Inr (v, st') \<Rightarrow>
          (case bt_decode_all NumBits Inertia st' n of
             Inl err \<Rightarrow> Inl err
           | Inr (vs, st'') \<Rightarrow> Inr (v # vs, st'')))"

definition decode_multisymbol :: "nat \<Rightarrow> nat \<Rightarrow> nat \<Rightarrow> ByteVec \<Rightarrow> error + nat list" where
  "decode_multisymbol NumBits Inertia n coded =
     (case BinArithDecoder_init coded of
        Inl err \<Rightarrow> Inl err
      | Inr d \<Rightarrow>
          (case bt_decode_all NumBits Inertia (BitTreeModel_init NumBits, d) n of
             Inl err \<Rightarrow> Inl err
           | Inr (vs, st) \<Rightarrow> Inr vs))"

section \<open>Word arithmetic of the coder\<close>

lemma unat_u32_less: "unat (w :: u32) < 4294967296"
  using unsigned_less [of w, where 'a = nat] by simp

lemma unat_u8_less: "unat (w :: u8) < 256"
  using unsigned_less [of w, where 'a = nat] by simp

lemma unat_u64_up: "unat (ucast (w :: u32) :: u64) = unat w"
proof -
  have "unat w < 2 ^ 64" using unat_u32_less [of w] by simp
  then show ?thesis by (simp add: unsigned_ucast_eq take_bit_nat_eq_self_iff)
qed

lemma unat_midpoint_raw:
  assumes "l \<le> h"
  shows "unat (midpoint l h p) = (unat l + (unat h - unat l) * unat p div 4096) mod 2 ^ 32"
proof -
  have d: "unat (h - l) = unat h - unat l"
    using assms by (simp add: unat_sub)
  have hl: "unat h - unat l < 2 ^ 32" "unat p < 2 ^ 32" "unat l < 2 ^ 32"
    using unat_u32_less [of h] unat_u32_less [of p] unat_u32_less [of l] by simp_all
  have "(unat h - unat l) * unat p < 2 ^ 32 * 2 ^ 32"
    using hl by (intro mult_strict_mono') simp_all 
  then have m: "(unat h - unat l) * unat p < 2 ^ 64" by simp
  have pr: "unat ((ucast (h - l) :: u64) * ucast p) = (unat h - unat l) * unat p"
    using m by (simp add: unat_word_ariths unat_u64_up d)
  have "(unat h - unat l) * unat p div 4096 < 2 ^ 52"
    using m by simp
  then have s: "unat l + (unat h - unat l) * unat p div 4096 < 2 ^ 64"
    using hl(3) by simp
  have "unat ((ucast l :: u64) + drop_bit kProbBits ((ucast (h - l) :: u64) * ucast p))
      = unat l + (unat h - unat l) * unat p div 4096"
    using s by (simp add: unat_word_ariths(1) unat_u64_up unat_drop_bit_eq pr kProbBits_def drop_bit_eq_div unat_div)
  then show ?thesis
    by (simp add: midpoint_def unsigned_ucast_eq take_bit_eq_mod)
qed

lemma renorm_guard_iff: "renorm_guard l h \<longleftrightarrow> unat l div 2 ^ 24 = unat h div 2 ^ 24"
proof -
  have "renorm_guard l h \<longleftrightarrow> unat (l XOR h) < 2 ^ 24"
    unfolding renorm_guard_def by (simp add: word_less_nat_alt)
  also have "\<dots> \<longleftrightarrow> unat (drop_bit 24 (l XOR h)) = 0"
    by (simp add: unat_drop_bit_eq drop_bit_eq_div unat_div div_eq_0_iff)
  also have "\<dots> \<longleftrightarrow> drop_bit 24 (l XOR h) = 0"
    by (simp only: unsigned_eq_0_iff)
  also have "\<dots> \<longleftrightarrow> drop_bit 24 l = drop_bit 24 h"
    by (metis (no_types, lifting) bit.xor_left_self drop_bit_xor xor.right_neutral)
  also have "\<dots> \<longleftrightarrow> unat l div 2 ^ 24 = unat h div 2 ^ 24"
    by (metis (no_types, lifting) drop_bit_eq_div unat_drop_bit_eq
    unsigned_word_eqI)
  finally show ?thesis .
qed

lemma unat_shl_lo: "unat (shl_lo l) = (unat l mod 2 ^ 24) * 256"
proof -
  have "unat (push_bit 8 l) = take_bit 32 (push_bit 8 (unat l))"
    by (simp only: unsigned_push_bit_eq) simp
  also have "\<dots> = (unat l * 256) mod (16777216 * 256)"
    by (simp only: take_bit_eq_mod push_bit_eq_mult) simp
  also have "\<dots> = (unat l mod 2 ^ 24) * 256"
    by (simp only: mult_mod_left) simp 
  finally show ?thesis by (simp only: shl_lo_def)
qed

lemma unat_or_byte:
  "unat (push_bit 8 (c :: u32) OR ucast (b :: u8)) = unat (push_bit 8 c) + unat b"
proof -
  have "push_bit 8 c OR (ucast b :: u32) = push_bit 8 c + ucast b"
    by (rule disjunctive_add [symmetric]) (auto simp: bit_simps dest: bit_imp_le_length) 
  then have "unat (push_bit 8 c OR (ucast b :: u32)) = (unat (push_bit 8 c) + unat (ucast b :: u32)) mod 2 ^ 32"
    by (simp add: unat_word_ariths(1))
  moreover have "unat (ucast b :: u32) = unat b"
    using unat_u8_less [of b] by (simp add: unsigned_ucast_eq take_bit_nat_eq_self_iff)
  moreover have "unat (push_bit 8 c) + unat b < 2 ^ 32"
    using unat_shl_lo [of c] unat_u8_less [of b] unfolding shl_lo_def
    by simp
  ultimately show ?thesis by simp
qed

lemma unat_code_shift:
  "unat (push_bit 8 (c :: u32) OR ucast (b :: u8)) = (unat c mod 2 ^ 24) * 256 + unat b"
  using unat_or_byte [of c b] unat_shl_lo [of c] by (simp only: shl_lo_def)

lemma unat_shl_hi: "unat (shl_hi h) = (unat h mod 2 ^ 24) * 256 + 255"
proof -
  have "(0xff :: u32) = ucast (0xff :: u8)" by simp
  then have "shl_hi h = push_bit 8 h OR ucast (0xff :: u8)"
    by (simp only: shl_hi_def)
  then show ?thesis
    by (simp only: unat_code_shift) simp
qed

lemma unat_kProbMax: "unat kProbMax = 4096"
  by (simp add: kProbMax_def kProbBits_def)

lemma scaled_le:
  fixes w p :: nat
  assumes "p \<le> 4096"
  shows "w * p div 4096 \<le> w"
proof -
  have "w * p \<le> w * 4096" using assms by simp
  then have "w * p div 4096 \<le> w * 4096 div 4096" by (rule div_le_mono)
  then show ?thesis by simp
qed

lemma scaled_less:
  fixes w p :: nat
  assumes "p < 4096" "0 < w"
  shows "w * p div 4096 < w"
proof -
  have "w * p < w * 4096" using assms by simp
  then show ?thesis by (simp add: less_mult_imp_div_less mult.commute)
qed

lemma unat_midpoint:
  assumes "l \<le> h" "p \<le> kProbMax"
  shows "unat (midpoint l h p) = unat l + (unat h - unat l) * unat p div 4096"
proof -
  have p: "unat p \<le> 4096"
    using assms(2) by (simp add: word_le_nat_alt unat_kProbMax)
  have "unat l \<le> unat h"
    using assms(1) by (simp add: word_le_nat_alt)
  then have "unat l + (unat h - unat l) * unat p div 4096 \<le> unat h"
    using scaled_le [OF p, of "unat h - unat l"] by simp
  then have "unat l + (unat h - unat l) * unat p div 4096 < 2 ^ 32"
    using unat_u32_less [of h] by simp
  then show ?thesis
    by (simp only: unat_midpoint_raw [OF assms(1)] mod_less)
qed

lemma midpoint_ge: "l \<le> h \<Longrightarrow> p \<le> kProbMax \<Longrightarrow> l \<le> midpoint l h p"
  by (simp add: word_le_nat_alt unat_midpoint)

lemma midpoint_le:
  assumes "l \<le> h" "p \<le> kProbMax"
  shows "midpoint l h p \<le> h"
proof -
  have p: "unat p \<le> 4096"
    using assms(2) by (simp add: word_le_nat_alt unat_kProbMax)
  have "unat l \<le> unat h"
    using assms(1) by (simp add: word_le_nat_alt)
  then show ?thesis
    using scaled_le [OF p, of "unat h - unat l"]
    by (simp add: word_le_nat_alt unat_midpoint [OF assms])
qed

lemma midpoint_less:
  assumes "l < h" "p < kProbMax"
  shows "midpoint l h p < h"
proof -
  have p: "unat p < 4096"
    using assms(2) by (simp add: word_less_nat_alt unat_kProbMax)
  have lh: "unat l < unat h"
    using assms(1) by (simp add: word_less_nat_alt)
  have "l \<le> h" "p \<le> kProbMax" using assms by simp_all
  then show ?thesis
    using scaled_less [OF p, of "unat h - unat l"] lh
    by (simp add: word_less_nat_alt unat_midpoint)
qed

lemma unat_succ: "(x :: u32) < h \<Longrightarrow> unat (x + 1) = unat x + 1"
proof -
  assume "x < h"
  then have "unat x < unat h" by (simp add: word_less_nat_alt)
  then have "unat x + 1 < 2 ^ 32" using unat_u32_less [of h] by simp
  then show ?thesis by (simp add: unat_word_ariths(1))
qed


lemma unat_top_byte: "unat (ucast (drop_bit 24 (l :: u32)) :: u8) = unat l div 2 ^ 24"
proof -
  have "unat l div 2 ^ 24 < 256" using unat_u32_less [of l] by simp
  then show ?thesis 
    by (simp add: unsigned_ucast_eq unat_drop_bit_eq drop_bit_eq_div take_bit_eq_mod unat_div)
qed

section \<open>Finalization and construction\<close>

lemma four_Suc: "(4 :: nat) = Suc (Suc (Suc (Suc 0)))"
  by simp

lemma byte_shl24: "(ucast (drop_bit 24 (push_bit 8 (l :: u32))) :: u8) = ucast (drop_bit 16 l)"
  by (rule bit_eqI) (auto simp: bit_simps)

lemma byte_shl16: "(ucast (drop_bit 16 (push_bit 8 (l :: u32))) :: u8) = ucast (drop_bit 8 l)"
  by (rule bit_eqI) (auto simp: bit_simps)

lemma byte_shl8: "(ucast (drop_bit 8 (push_bit 8 (l :: u32))) :: u8) = ucast l"
  by (rule bit_eqI) (auto simp: bit_simps)

lemma enc_flush_4:
  "enc_bytes (enc_flush 4 e) =
     enc_bytes e @ [ucast (drop_bit 24 (enc_lo e)), ucast (drop_bit 16 (enc_lo e)),
                    ucast (drop_bit 8 (enc_lo e)), ucast (enc_lo e)]"
proof (cases e)
  case (fields l h bs)
  have step: "\<And>n l h bs. enc_flush (Suc n) \<lparr>enc_lo = l, enc_hi = h, enc_bytes = bs\<rparr> =
      enc_flush n \<lparr>enc_lo = push_bit 8 l, enc_hi = h, enc_bytes = bs @ [ucast (drop_bit 24 l)]\<rparr>"
    by simp
  show ?thesis
    unfolding fields four_Suc step
    by (simp only: enc_flush.simps byte_shl24 byte_shl16 byte_shl8
          BinArithEncoder.simps append_assoc append.simps)
qed

lemma finish_bytes:
  "BinArithEncoder_finish e =
     enc_bytes e @ [ucast (drop_bit 24 (enc_lo e)), ucast (drop_bit 16 (enc_lo e)),
                    ucast (drop_bit 8 (enc_lo e)), ucast (enc_lo e)]"
  by (simp only: BinArithEncoder_finish_def enc_flush_4)

lemma dec_next_Inr:
  "dec_read_pos d < length (dec_bytes d) \<Longrightarrow>
   dec_next d = Inr \<lparr>dec_code = push_bit 8 (dec_code d) OR ucast (dec_bytes d ! dec_read_pos d),
      dec_lo = dec_lo d, dec_hi = dec_hi d, dec_bytes = dec_bytes d,
      dec_read_pos = Suc (dec_read_pos d)\<rparr>"
  by (simp add: dec_next_def)

lemma dec_next_Inl:
  "\<not> dec_read_pos d < length (dec_bytes d) \<Longrightarrow> dec_next d = Inl UndefinedBehaviour"
  by (simp add: dec_next_def)

lemma dec_fill_short:
  "length (dec_bytes d) - dec_read_pos d < n \<Longrightarrow> dec_fill n d = Inl UndefinedBehaviour"
proof (induction n arbitrary: d)
  case 0
  then show ?case by simp
next
  case (Suc n)
  show ?case
  proof (cases "dec_read_pos d < length (dec_bytes d)")
    case True
    then show ?thesis
      using Suc.prems by (simp add: dec_next_Inr Suc.IH)
  next
    case False
    then show ?thesis by (simp add: dec_next_Inl)
  qed
qed

lemma init_short: "length source < 4 \<Longrightarrow> BinArithDecoder_init source = Inl UndefinedBehaviour"
  by (simp add: BinArithDecoder_init_def dec_fill_short)

lemma init_four:
  "BinArithDecoder_init (a # b # c # d # rest) =
     Inr \<lparr>dec_code = push_bit 8 (push_bit 8 (push_bit 8 (push_bit 8 0 OR ucast a) OR ucast b) OR ucast c) OR ucast d,
          dec_lo = 0, dec_hi = NOT 0, dec_bytes = a # b # c # d # rest, dec_read_pos = 4\<rparr>"
  unfolding BinArithDecoder_init_def four_Suc dec_fill.simps
  by (simp add: dec_next_Inr)

text \<open>
  C8. The destructor appends exactly four bytes to the sink: the bytes of the final
  \<^verbatim>\<open>lo\<close>, most significant first. A session without any \<^verbatim>\<open>encode\<close> call gives a stream
  of exactly four bytes (all zero, as \<^verbatim>\<open>lo\<close> starts at 0), and decoding zero symbols from
  it succeeds: constructing the decoder over the four bytes does.
\<close>

theorem finish_emits_lo_big_endian:
  "BinArithEncoder_finish e =
     enc_bytes e @ [ucast (drop_bit 24 (enc_lo e)), ucast (drop_bit 16 (enc_lo e)),
                    ucast (drop_bit 8 (enc_lo e)), ucast (enc_lo e)]
   \<and> length (BinArithEncoder_finish e) = length (enc_bytes e) + 4
   \<and> encode_static p [] = [0, 0, 0, 0]
   \<and> length (encode_static p []) = 4
   \<and> decode_static p 0 (encode_static p []) = Inr []"
proof -
  have e: "encode_static p [] = [0, 0, 0, 0]"
    by (simp add: encode_static_def finish_bytes BinArithEncoder_init_def)
  have d: "decode_static p 0 [0, 0, 0, 0] = Inr []"
    by (simp add: decode_static_def init_four)
  show ?thesis
    by (simp add: finish_bytes e d)
qed

section \<open>The iterations of the renormalization loop\<close>

text \<open>
  How often the loop \<^verbatim>\<open>while ((lo ^ hi) < (1u << 24))\<close> runs from given bounds. The test
  and the new bounds depend on \<^verbatim>\<open>lo\<close> and \<^verbatim>\<open>hi\<close> only, in the encoder and in the decoder.
\<close>

function renorm_iters :: "u32 \<Rightarrow> u32 \<Rightarrow> nat" where
  "renorm_iters l h = (if renorm_guard l h then Suc (renorm_iters (shl_lo l) (shl_hi h)) else 0)"
  by pat_completeness auto
termination
  by (relation "measure (\<lambda>(l, h). renorm_left l h)") (auto simp: renorm_left_decreases)

declare renorm_iters.simps [simp del]

lemma renorm_iters_0: "\<not> renorm_guard l h \<Longrightarrow> renorm_iters l h = 0"
  by (simp add: renorm_iters.simps [of l h])

lemma renorm_iters_Suc:
  "renorm_guard l h \<Longrightarrow> renorm_iters l h = Suc (renorm_iters (shl_lo l) (shl_hi h))"
  by (simp add: renorm_iters.simps [of l h])

lemma renorm_iters_left: "renorm_iters l h = renorm_left l h"
proof (induction l h rule: renorm_iters.induct)
  case (1 l h)
  show ?case
  proof (cases "renorm_guard l h")
    case True
    have "renorm_iters l h = Suc (renorm_left (shl_lo l) (shl_hi h))"
      using True 1 by (simp add: renorm_iters.simps [of l h])
    also have "\<dots> = renorm_left l h"
      using True by (simp add: renorm_left_def shl_lo4 shl_hi4 renorm_guard_stops)
    finally show ?thesis .
  next
    case False
    then show ?thesis
      by (simp add: renorm_iters.simps [of l h] renorm_left_def)
  qed
qed

lemma renorm_iters_le: "renorm_iters l h \<le> 4"
  by (simp add: renorm_iters_left renorm_left_def)

lemma enc_renorm_funpow:
  "enc_renorm e = (enc_shift ^^ renorm_iters (enc_lo e) (enc_hi e)) e"
proof (induction e rule: enc_renorm.induct)
  case (1 e)
  show ?case
  proof (cases "renorm_guard (enc_lo e) (enc_hi e)")
    case True
    have s: "enc_lo (enc_shift e) = shl_lo (enc_lo e)" "enc_hi (enc_shift e) = shl_hi (enc_hi e)"
      by (simp_all add: enc_shift_def)
    show ?thesis
      using True 1 [OF True]
      by (simp add: enc_renorm.simps [of e] renorm_iters.simps [of "enc_lo e" "enc_hi e"] s
            funpow_swap1)
  next
    case False
    then show ?thesis
      by (simp add: enc_renorm.simps [of e] renorm_iters.simps [of "enc_lo e" "enc_hi e"])
  qed
qed

lemma enc_renorm_stops: "\<not> renorm_guard (enc_lo (enc_renorm e)) (enc_hi (enc_renorm e))"
proof (induction e rule: enc_renorm.induct)
  case (1 e)
  then show ?case
    by (cases "renorm_guard (enc_lo e) (enc_hi e)") (simp_all add: enc_renorm.simps [of e])
qed

lemma enc_renorm_length:
  "length (enc_bytes (enc_renorm e)) = length (enc_bytes e) + renorm_iters (enc_lo e) (enc_hi e)"
proof (induction e rule: enc_renorm.induct)
  case (1 e)
  show ?case
  proof (cases "renorm_guard (enc_lo e) (enc_hi e)")
    case True
    have s: "enc_lo (enc_shift e) = shl_lo (enc_lo e)" "enc_hi (enc_shift e) = shl_hi (enc_hi e)"
      "length (enc_bytes (enc_shift e)) = Suc (length (enc_bytes e))"
      by (simp_all add: enc_shift_def)
    show ?thesis
      using True 1 [OF True]
      by (simp add: enc_renorm.simps [of e] renorm_iters.simps [of "enc_lo e" "enc_hi e"] s)
  next
    case False
    then show ?thesis
      by (simp add: enc_renorm.simps [of e] renorm_iters.simps [of "enc_lo e" "enc_hi e"])
  qed
qed

lemma dec_shift_Inr:
  "dec_read_pos d < length (dec_bytes d) \<Longrightarrow>
   dec_shift d = Inr \<lparr>dec_code = push_bit 8 (dec_code d) OR ucast (dec_bytes d ! dec_read_pos d),
      dec_lo = shl_lo (dec_lo d), dec_hi = shl_hi (dec_hi d), dec_bytes = dec_bytes d,
      dec_read_pos = Suc (dec_read_pos d)\<rparr>"
  by (simp add: dec_shift_def dec_next_Inr)

lemma dec_shift_Inl:
  "\<not> dec_read_pos d < length (dec_bytes d) \<Longrightarrow> dec_shift d = Inl UndefinedBehaviour"
  by (simp add: dec_shift_def dec_next_Inl)

lemma dec_renorm_Inr:
  "dec_renorm d = Inr d' \<Longrightarrow>
     dec_read_pos d' = dec_read_pos d + renorm_iters (dec_lo d) (dec_hi d) \<and>
     dec_bytes d' = dec_bytes d \<and>
     \<not> renorm_guard (dec_lo d') (dec_hi d')"
proof (induction d rule: dec_renorm.induct)
  case (1 d)
  show ?case
  proof (cases "renorm_guard (dec_lo d) (dec_hi d)")
    case True
    show ?thesis
    proof (cases "dec_read_pos d < length (dec_bytes d)")
      case inb: True
      let ?d1 = "\<lparr>dec_code = push_bit 8 (dec_code d) OR ucast (dec_bytes d ! dec_read_pos d),
        dec_lo = shl_lo (dec_lo d), dec_hi = shl_hi (dec_hi d), dec_bytes = dec_bytes d,
        dec_read_pos = Suc (dec_read_pos d)\<rparr>"
      have r: "dec_renorm ?d1 = Inr d'"
        using "1.prems" True by (simp add: dec_renorm.simps [of d] dec_shift_Inr [OF inb])
      show ?thesis
        using "1.IH" [OF True dec_shift_Inr [OF inb] r] True
        by (simp add: renorm_iters.simps [of "dec_lo d" "dec_hi d"])
    next
      case False
      then show ?thesis
        using "1.prems" True by (simp add: dec_renorm.simps [of d] dec_shift_Inl)
    qed
  next
    case False
    then show ?thesis
      using "1.prems"
      by (auto simp: dec_renorm.simps [of d] renorm_iters_0)
  qed
qed

lemma dec_renorm_Inl:
  "dec_renorm d = Inl err \<longleftrightarrow>
     err = UndefinedBehaviour \<and> 0 < renorm_iters (dec_lo d) (dec_hi d) \<and>
     length (dec_bytes d) < dec_read_pos d + renorm_iters (dec_lo d) (dec_hi d)"
proof (induction d rule: dec_renorm.induct)
  case (1 d)
  show ?case
  proof (cases "renorm_guard (dec_lo d) (dec_hi d)")
    case True
    show ?thesis
    proof (cases "dec_read_pos d < length (dec_bytes d)")
      case inb: True
      let ?d1 = "\<lparr>dec_code = push_bit 8 (dec_code d) OR ucast (dec_bytes d ! dec_read_pos d),
        dec_lo = shl_lo (dec_lo d), dec_hi = shl_hi (dec_hi d), dec_bytes = dec_bytes d,
        dec_read_pos = Suc (dec_read_pos d)\<rparr>"
      have r: "dec_renorm d = dec_renorm ?d1"
        using True by (simp add: dec_renorm.simps [of d] dec_shift_Inr [OF inb])
      show ?thesis
        using "1.IH" [OF True dec_shift_Inr [OF inb]] True inb
        by (auto simp: r renorm_iters.simps [of "dec_lo d" "dec_hi d"])
    next
      case False
      then show ?thesis
        using True
        by (auto simp: dec_renorm.simps [of d] dec_shift_Inl
              renorm_iters.simps [of "dec_lo d" "dec_hi d"])
    qed
  next
    case False
    then show ?thesis
      by (simp add: dec_renorm.simps [of d] renorm_iters.simps [of "dec_lo d" "dec_hi d"])
  qed
qed

lemma dec_split_pos: "dec_read_pos (snd (dec_split d p)) = dec_read_pos d"
  and dec_split_bytes: "dec_bytes (snd (dec_split d p)) = dec_bytes d"
  by (simp_all add: dec_split_def Let_def)

lemma decode_Inr:
  assumes "BinArithDecoder_decode d p = Inr (b, d')"
  shows "dec_read_pos d' =
      dec_read_pos d + renorm_iters (dec_lo (snd (dec_split d p))) (dec_hi (snd (dec_split d p)))"
    and "dec_bytes d' = dec_bytes d"
    and "\<not> renorm_guard (dec_lo d') (dec_hi d')"
    and "b = fst (dec_split d p)"
proof -
  obtain b1 d1 where s: "dec_split d p = (b1, d1)" by (cases "dec_split d p")
  have r: "dec_renorm d1 = Inr d'" and b: "b = b1"
    using assms by (auto simp: BinArithDecoder_decode_def s split: sum.splits)
  have d1: "d1 = snd (dec_split d p)" by (simp add: s)
  show "dec_read_pos d' =
      dec_read_pos d + renorm_iters (dec_lo (snd (dec_split d p))) (dec_hi (snd (dec_split d p)))"
    using dec_renorm_Inr [OF r] by (simp add: d1 dec_split_pos)
  show "dec_bytes d' = dec_bytes d"
    using dec_renorm_Inr [OF r] by (simp add: d1 dec_split_bytes)
  show "\<not> renorm_guard (dec_lo d') (dec_hi d')"
    using dec_renorm_Inr [OF r] by simp
  show "b = fst (dec_split d p)" by (simp add: b s)
qed

lemma decode_Inl:
  "BinArithDecoder_decode d p = Inl err \<longleftrightarrow>
     err = UndefinedBehaviour \<and>
     0 < renorm_iters (dec_lo (snd (dec_split d p))) (dec_hi (snd (dec_split d p))) \<and>
     length (dec_bytes d) <
       dec_read_pos d + renorm_iters (dec_lo (snd (dec_split d p))) (dec_hi (snd (dec_split d p)))"
proof -
  obtain b1 d1 where s: "dec_split d p = (b1, d1)" by (cases "dec_split d p")
  have d1: "d1 = snd (dec_split d p)" by (simp add: s)
  have "BinArithDecoder_decode d p = Inl err \<longleftrightarrow> dec_renorm d1 = Inl err"
    by (auto simp: BinArithDecoder_decode_def s split: sum.splits)
  also have "\<dots> \<longleftrightarrow> dec_renorm (snd (dec_split d p)) = Inl err"
    by (simp only: d1)
  finally show ?thesis
    by (simp only: dec_renorm_Inl [of "snd (dec_split d p)"] dec_split_pos dec_split_bytes)
qed

text \<open>
  C10. The renormalization loop runs at most four times, from any bounds (those with
  \<^verbatim>\<open>lo <= hi\<close> among them): the loop of the encoder is \<open>renorm_iters\<close> applications of
  its body, after which the test is false, so that an \<^verbatim>\<open>encode\<close> call appends at most
  four bytes; a \<^verbatim>\<open>decode\<close> call that returns has consumed at most four bytes and left
  the test false, and it does return when four bytes are left in the source.
\<close>

theorem renormalization_at_most_four:
  "renorm_iters l h \<le> 4
   \<and> enc_renorm e = (enc_shift ^^ renorm_iters (enc_lo e) (enc_hi e)) e
   \<and> \<not> renorm_guard (enc_lo (BinArithEncoder_encode e b p)) (enc_hi (BinArithEncoder_encode e b p))
   \<and> length (enc_bytes (BinArithEncoder_encode e b p)) \<le> length (enc_bytes e) + 4
   \<and> (BinArithDecoder_decode d p = Inr (b', d') \<longrightarrow>
        dec_read_pos d' \<le> dec_read_pos d + 4 \<and> \<not> renorm_guard (dec_lo d') (dec_hi d'))
   \<and> (dec_read_pos d + 4 \<le> length (dec_bytes d) \<longrightarrow>
        (\<exists>b' d'. BinArithDecoder_decode d p = Inr (b', d')))"
proof -
  have enc_len: "length (enc_bytes (BinArithEncoder_encode e b p)) \<le> length (enc_bytes e) + 4"
  proof -
    have "enc_bytes (enc_split e b p) = enc_bytes e"
      by (simp add: enc_split_def Let_def)
    then show ?thesis
      using renorm_iters_le [of "enc_lo (enc_split e b p)" "enc_hi (enc_split e b p)"]
      by (simp add: BinArithEncoder_encode_def enc_renorm_length)
  qed
  have dec_ret: "dec_read_pos d' \<le> dec_read_pos d + 4 \<and> \<not> renorm_guard (dec_lo d') (dec_hi d')"
    if "BinArithDecoder_decode d p = Inr (b', d')"
    using decode_Inr(1,3) [OF that]
      renorm_iters_le [of "dec_lo (snd (dec_split d p))" "dec_hi (snd (dec_split d p))"]
    by simp
  have dec_ok: "\<exists>b' d'. BinArithDecoder_decode d p = Inr (b', d')"
    if "dec_read_pos d + 4 \<le> length (dec_bytes d)"
  proof (cases "BinArithDecoder_decode d p")
    case (Inl err)
    then show ?thesis
      using that renorm_iters_le [of "dec_lo (snd (dec_split d p))" "dec_hi (snd (dec_split d p))"]
      by (simp add: decode_Inl)
  next
    case (Inr r)
    then show ?thesis by (cases r) simp
  qed
  have stops: "\<not> renorm_guard (enc_lo (BinArithEncoder_encode e b p)) (enc_hi (BinArithEncoder_encode e b p))"
    by (simp add: BinArithEncoder_encode_def enc_renorm_stops)
  show ?thesis
    using renorm_iters_le [of l h] enc_renorm_funpow [of e] stops enc_len dec_ret dec_ok
    by blast
qed

lemma decode_example:
  "BinArithDecoder_decode
     \<lparr>dec_code = 0, dec_lo = 0, dec_hi = NOT 0, dec_bytes = [0, 0, 0, 0, 0, 0, 0, 0], dec_read_pos = 4\<rparr> 1
   = Inr (1, \<lparr>dec_code = 0, dec_lo = 0, dec_hi = 0x0FFFFFFF, dec_bytes = [0, 0, 0, 0, 0, 0, 0, 0],
               dec_read_pos = 5\<rparr>)"
  by code_simp

theorem renormalization_at_most_four_witness:
  "renorm_iters 0 0 \<le> 4
   \<and> BinArithDecoder_decode
       \<lparr>dec_code = 0, dec_lo = 0, dec_hi = NOT 0, dec_bytes = [0, 0, 0, 0, 0, 0, 0, 0], dec_read_pos = 4\<rparr> 1
     = Inr (1, \<lparr>dec_code = 0, dec_lo = 0, dec_hi = 0x0FFFFFFF, dec_bytes = [0, 0, 0, 0, 0, 0, 0, 0],
                 dec_read_pos = 5\<rparr>)
   \<and> (5 :: nat) \<le> 4 + 4
   \<and> \<not> renorm_guard 0 0x0FFFFFFF
   \<and> (4 :: nat) + 4 \<le> length [0 :: u8, 0, 0, 0, 0, 0, 0, 0]
   \<and> (\<exists>b' d'. BinArithDecoder_decode
       \<lparr>dec_code = 0, dec_lo = 0, dec_hi = NOT 0, dec_bytes = [0, 0, 0, 0, 0, 0, 0, 0], dec_read_pos = 4\<rparr> 1
       = Inr (b', d'))"
  using renormalization_at_most_four [of 0 0 "BinArithEncoder_init []" 0 1
      "\<lparr>dec_code = 0, dec_lo = 0, dec_hi = NOT 0, dec_bytes = [0, 0, 0, 0, 0, 0, 0, 0], dec_read_pos = 4\<rparr>"
      1 "\<lparr>dec_code = 0, dec_lo = 0, dec_hi = 0x0FFFFFFF, dec_bytes = [0, 0, 0, 0, 0, 0, 0, 0],
                 dec_read_pos = 5\<rparr>"]
    decode_example
  by simp

section \<open>The adaptive model keeps its probability inside the open range\<close>

lemma unat_u16_up: "unat (ucast (w :: u16) :: u32) = unat w"
proof -
  have "unat w < 2 ^ LENGTH(16)" by (rule unsigned_less)
  then have "unat w < 2 ^ 32" by simp
  then show ?thesis by (simp add: unsigned_ucast_eq take_bit_nat_eq_self_iff)
qed

lemma unat_u16_down: "unat w < 65536 \<Longrightarrow> unat (ucast (w :: u32) :: u16) = unat w"
  by (simp add: unsigned_ucast_eq take_bit_nat_eq_self_iff)

lemma unat_shr: "unat (drop_bit k (w :: u32)) = unat w div 2 ^ k"
  by (simp only: unat_drop_bit_eq) (rule drop_bit_eq_div)

lemma half_or_less:
  fixes n :: nat
  assumes "1 \<le> k"
  shows "n div 2 ^ k \<le> n div 2"
proof -
  have "(2 :: nat) ^ 1 \<le> 2 ^ k" using assms by (intro power_increasing) simp_all
  then have "n div 2 ^ k \<le> n div 2 ^ 1" by (intro div_le_mono2) simp_all
  then show ?thesis by simp
qed

lemma unat_adapt_one:
  assumes "unat (prob m) < 4096" "b \<noteq> 0"
  shows "unat (prob (adapt Inertia m b)) = unat (prob m) + (4096 - unat (prob m)) div 2 ^ Inertia"
proof -
  let ?n = "unat (prob m)"
  have le: "(ucast (prob m) :: u32) \<le> kProbMax"
    using assms(1) by (simp add: word_le_nat_alt unat_u16_up unat_kProbMax)
  have d: "unat (kProbMax - ucast (prob m)) = 4096 - ?n"
    using le by (simp add: unat_sub unat_u16_up unat_kProbMax)
  have s: "unat (drop_bit Inertia (kProbMax - ucast (prob m))) = (4096 - ?n) div 2 ^ Inertia"
    by (simp only: unat_shr d)
  have "(4096 - ?n) div 2 ^ Inertia \<le> 4096 - ?n" by (rule div_le_dividend)
  then have b: "?n + (4096 - ?n) div 2 ^ Inertia \<le> 4096" using assms(1) by linarith
  have "unat ((ucast (prob m) :: u32) + drop_bit Inertia (kProbMax - ucast (prob m)))
      = ?n + (4096 - ?n) div 2 ^ Inertia"
    using b by (simp only: unat_word_ariths(1) s unat_u16_up) simp
  then show ?thesis
    using b assms(2) by (simp add: adapt_def unat_u16_down)
qed

lemma unat_adapt_zero:
  assumes "b = 0"
  shows "unat (prob (adapt Inertia m b)) = unat (prob m) - unat (prob m) div 2 ^ Inertia"
proof -
  let ?n = "unat (prob m)"
  have n: "?n < 65536" using unsigned_less [of "prob m", where 'a = nat] by simp
  have s: "unat (drop_bit Inertia (ucast (prob m) :: u32)) = ?n div 2 ^ Inertia"
    by (simp only: unat_shr unat_u16_up)
  have "?n div 2 ^ Inertia \<le> ?n" by (rule div_le_dividend)
  then have le: "drop_bit Inertia (ucast (prob m) :: u32) \<le> ucast (prob m)"
    by (simp only: word_le_nat_alt s unat_u16_up)
  have "unat ((ucast (prob m) :: u32) - drop_bit Inertia (ucast (prob m) :: u32))
      = ?n - ?n div 2 ^ Inertia"
    using le by (simp only: unat_sub s unat_u16_up)
  then show ?thesis
    using n assms by (simp add: adapt_def unat_u16_down)
qed

lemma adapt_range:
  assumes "1 \<le> Inertia" "0 < unat (prob m)" "unat (prob m) < 4096"
  shows "0 < unat (prob (adapt Inertia m b)) \<and> unat (prob (adapt Inertia m b)) < 4096"
proof (cases "b = 0")
  case True
  have "unat (prob m) div 2 ^ Inertia \<le> unat (prob m) div 2"
    by (rule half_or_less [OF assms(1)])
  then show ?thesis
    using assms(2,3) unfolding unat_adapt_zero [OF True] by linarith
next
  case False
  have "(4096 - unat (prob m)) div 2 ^ Inertia \<le> (4096 - unat (prob m)) div 2"
    by (rule half_or_less [OF assms(1)])
  then show ?thesis
    using assms(2,3) unfolding unat_adapt_one [OF assms(3) False] by linarith
qed

lemma adapt_range_foldl:
  assumes "1 \<le> Inertia"
  shows "0 < unat (prob m) \<Longrightarrow> unat (prob m) < 4096 \<Longrightarrow>
    0 < unat (prob (foldl (adapt Inertia) m bs)) \<and> unat (prob (foldl (adapt Inertia) m bs)) < 4096"
proof (induction bs arbitrary: m)
  case Nil
  then show ?case by simp
next
  case (Cons b bs)
  show ?case
    using Cons.IH [of "adapt Inertia m b"] adapt_range [OF assms Cons.prems, of b] by simp
qed

lemma prob_inside_iff:
  "0 < prob m \<and> (ucast (prob m) :: u32) < kProbMax \<longleftrightarrow> 0 < unat (prob m) \<and> unat (prob m) < 4096"
  by (simp add: word_less_nat_alt unat_u16_up unat_kProbMax)

text \<open>
  C6. For every \<^verbatim>\<open>Inertia >= 1\<close> and every model whose probability is strictly between 0
  and \<^verbatim>\<open>kProbMax\<close>, the probability after any number of \<^verbatim>\<open>adapt\<close> calls, with any bits,
  is again strictly between 0 and \<^verbatim>\<open>kProbMax\<close>.
\<close>

theorem adapt_never_reaches_the_ends:
  assumes "1 \<le> Inertia" and "0 < prob m" and "(ucast (prob m) :: u32) < kProbMax"
  shows "0 < prob (foldl (adapt Inertia) m bs)
     \<and> (ucast (prob (foldl (adapt Inertia) m bs)) :: u32) < kProbMax"
proof -
  have "0 < unat (prob m) \<and> unat (prob m) < 4096"
    using assms(2,3) prob_inside_iff [of m] by simp
  then have "0 < unat (prob (foldl (adapt Inertia) m bs))
      \<and> unat (prob (foldl (adapt Inertia) m bs)) < 4096"
    using adapt_range_foldl [OF assms(1), of m bs] by simp
  then show ?thesis
    by (simp only: prob_inside_iff)
qed

theorem adapt_never_reaches_the_ends_witness:
  "(1 :: nat) \<le> 1 \<and> 0 < prob BinShiftModel_init \<and> (ucast (prob BinShiftModel_init) :: u32) < kProbMax
   \<and> 0 < prob (foldl (adapt 1) BinShiftModel_init [1, 1, 0, 1])
   \<and> (ucast (prob (foldl (adapt 1) BinShiftModel_init [1, 1, 0, 1])) :: u32) < kProbMax"
proof -
  have a: "(1 :: nat) \<le> 1" by simp
  have b: "0 < prob BinShiftModel_init"
    by (simp add: BinShiftModel_init_def kProbMax_def kProbBits_def)
  have c: "(ucast (prob BinShiftModel_init) :: u32) < kProbMax"
    by (simp add: BinShiftModel_init_def kProbMax_def kProbBits_def)
  from adapt_never_reaches_the_ends [OF a b c, of "[1, 1, 0, 1]"] a b c
  show ?thesis by blast
qed

section \<open>One call of the adaptive model\<close>

text \<open>
  C7. A call of the adaptive model makes exactly one coder call, with the probability the
  model had before the call, and then updates the probability from the bit: the encoder
  after \<^verbatim>\<open>BinShiftModel::encode\<close> is the encoder after one \<^verbatim>\<open>encode\<close> of the bit at the old
  probability (whatever \<^verbatim>\<open>Inertia\<close> is), and the model is the old one adapted to the bit;
  \<^verbatim>\<open>BinShiftModel::decode\<close> is one \<^verbatim>\<open>decode\<close> at the old probability, its failure if it
  fails, and otherwise its bit, the old model adapted to that bit, and its decoder.
\<close>

theorem model_codes_then_adapts:
  "snd (BinShiftModel_encode Inertia m enc b) = BinArithEncoder_encode enc b (ucast (prob m))
   \<and> fst (BinShiftModel_encode Inertia m enc b) = adapt Inertia m b
   \<and> BinShiftModel_decode Inertia m dec =
       (case BinArithDecoder_decode dec (ucast (prob m)) of
          Inl err \<Rightarrow> Inl err
        | Inr r \<Rightarrow> Inr (fst r, adapt Inertia m (fst r), snd r))"
  by (simp add: BinShiftModel_encode_def BinShiftModel_decode_def Let_def split: sum.splits prod.splits)

section \<open>The range check of the bit-tree encoder\<close>

lemma kNumSyms_power: "kNumSyms NumBits = 2 ^ NumBits"
  by (simp add: kNumSyms_def push_bit_eq_mult)

text \<open>
  C5. For a value outside \<^verbatim>\<open>[0, 2^NumBits)\<close> the bit-tree encoder fails at its assertion,
  a failure the code reports, before anything is coded: the state at the failure is the
  state at the call, so that no byte has been appended to the sink and no probability
  has been updated. A session stops at that symbol with the same failure.
\<close>

theorem encode_rejects_out_of_range:
  assumes "2 ^ NumBits \<le> val"
  shows "BitTreeModel_encode NumBits Inertia model enc val = Inl (AssertionFailure, model, enc)
     \<and> reported AssertionFailure
     \<and> bt_encode_all NumBits Inertia (model, enc) (val # vs) = Inl (AssertionFailure, model, enc)"
  using assms by (simp add: BitTreeModel_encode_def kNumSyms_power)

theorem encode_rejects_out_of_range_witness:
  "(2 :: nat) ^ 8 \<le> 256
   \<and> BitTreeModel_encode 8 5 (BitTreeModel_init 8) (BinArithEncoder_init []) 256
       = Inl (AssertionFailure, BitTreeModel_init 8, BinArithEncoder_init [])
   \<and> reported AssertionFailure
   \<and> bt_encode_all 8 5 (BitTreeModel_init 8, BinArithEncoder_init []) [256, 0]
       = Inl (AssertionFailure, BitTreeModel_init 8, BinArithEncoder_init [])"
proof -
  have a: "(2 :: nat) ^ 8 \<le> 256" by simp
  from encode_rejects_out_of_range [OF a, of 5 "BitTreeModel_init 8" "BinArithEncoder_init []" "[0]"] a
  show ?thesis by blast
qed

section \<open>Reachable states and the order of the bounds\<close>

text \<open>
  The states an encoder goes through, at the grain of the statements of \<^verbatim>\<open>encode\<close>:
  between two calls (\<open>Idle\<close>), and inside a call after the subdivision and after each
  iteration of the renormalization loop (\<open>Busy\<close>). The probabilities are strictly
  between 0 and \<^verbatim>\<open>kProbMax\<close>.
\<close>

datatype phase = Idle | Busy

inductive enc_reach :: "phase \<Rightarrow> BinArithEncoder \<Rightarrow> bool" where
  enc_reach_init: "enc_reach Idle (BinArithEncoder_init target)"
| enc_reach_split:
    "enc_reach Idle e \<Longrightarrow> 0 < p \<Longrightarrow> p < kProbMax \<Longrightarrow> enc_reach Busy (enc_split e b p)"
| enc_reach_shift:
    "enc_reach Busy e \<Longrightarrow> renorm_guard (enc_lo e) (enc_hi e) \<Longrightarrow> enc_reach Busy (enc_shift e)"
| enc_reach_done:
    "enc_reach Busy e \<Longrightarrow> \<not> renorm_guard (enc_lo e) (enc_hi e) \<Longrightarrow> enc_reach Idle e"

text \<open>
  The states a decoder goes through, at the same grain: after construction, after a
  subdivision (with any probability), after an iteration of the renormalization loop
  that found its byte.
\<close>

inductive dec_reach :: "BinArithDecoder \<Rightarrow> bool" where
  dec_reach_init: "BinArithDecoder_init source = Inr d \<Longrightarrow> dec_reach d"
| dec_reach_split: "dec_reach d \<Longrightarrow> dec_reach (snd (dec_split d p))"
| dec_reach_shift:
    "dec_reach d \<Longrightarrow> renorm_guard (dec_lo d) (dec_hi d) \<Longrightarrow> dec_shift d = Inr d' \<Longrightarrow> dec_reach d'"

lemma same_top_mod:
  fixes a c :: nat
  assumes "a \<le> c" "a div k = c div k"
  shows "a mod k \<le> c mod k"
proof -
  have "a = k * (c div k) + a mod k"
    using assms(2) by (metis mult_div_mod_eq)
  moreover have "c = k * (c div k) + c mod k"
    by simp
  ultimately show ?thesis
    using assms(1) by linarith
qed

lemma between_top:
  fixes a b c :: nat
  assumes "a \<le> c" "c \<le> b" "a div k = b div k"
  shows "c div k = a div k"
  using div_le_mono [OF assms(1), of k] div_le_mono [OF assms(2), of k] assms(3) by simp

lemma guard_not_equal: "\<not> renorm_guard l h \<Longrightarrow> l \<noteq> h"
  by (auto simp: renorm_guard_iff)

lemma shl_keeps_order:
  assumes "renorm_guard l h" "l \<le> h"
  shows "shl_lo l \<le> shl_hi h"
proof -
  have "unat l mod 2 ^ 24 \<le> unat h mod 2 ^ 24"
    using assms by (intro same_top_mod) (simp_all add: renorm_guard_iff word_le_nat_alt)
  then show ?thesis
    by (simp add: word_le_nat_alt unat_shl_lo unat_shl_hi)
qed

lemma split_keeps_order:
  assumes "l < h" "p < kProbMax"
  shows "l \<le> midpoint l h p" and "midpoint l h p < h" and "midpoint l h p + 1 \<le> h"
    and "l \<le> midpoint l h p + 1"
proof -
  have le: "l \<le> h" "p \<le> kProbMax" using assms by simp_all
  show a: "l \<le> midpoint l h p" by (rule midpoint_ge [OF le])
  show b: "midpoint l h p < h" by (rule midpoint_less [OF assms])
  show "midpoint l h p + 1 \<le> h" using b by (rule inc_le)
  have "unat (midpoint l h p + 1) = unat (midpoint l h p) + 1" using b by (rule unat_succ)
  then show "l \<le> midpoint l h p + 1"
    using a by (simp add: word_le_nat_alt)
qed

lemma enc_reach_order:
  "enc_reach ph e \<Longrightarrow> enc_lo e \<le> enc_hi e \<and> (ph = Idle \<longrightarrow> enc_lo e < enc_hi e)"
proof (induction rule: enc_reach.induct)
  case (enc_reach_init target)
  show ?case by (simp add: BinArithEncoder_init_def word_gt_0)
next
  case (enc_reach_split e p b)
  then have "enc_lo e < enc_hi e" by simp
  from split_keeps_order [OF this enc_reach_split.hyps(3)]
  show ?case by (simp add: enc_split_def Let_def)
next
  case (enc_reach_shift e)
  then show ?case by (simp add: enc_shift_def shl_keeps_order)
next
  case (enc_reach_done e)
  then show ?case using guard_not_equal [of "enc_lo e" "enc_hi e"] by (simp add: order_less_le)
qed

lemma enc_renorm_reach: "enc_reach Busy e \<Longrightarrow> enc_reach Idle (enc_renorm e)"
proof (induction e rule: enc_renorm.induct)
  case (1 e)
  show ?case
  proof (cases "renorm_guard (enc_lo e) (enc_hi e)")
    case True
    then show ?thesis
      using "1.IH" [OF True enc_reach_shift [OF "1.prems" True]] by (simp add: enc_renorm.simps [of e])
  next
    case False
    then show ?thesis
      using enc_reach_done [OF "1.prems" False] by (simp add: enc_renorm.simps [of e])
  qed
qed

lemma enc_encode_reach:
  "enc_reach Idle e \<Longrightarrow> 0 < p \<Longrightarrow> p < kProbMax \<Longrightarrow> enc_reach Idle (BinArithEncoder_encode e b p)"
  unfolding BinArithEncoder_encode_def by (intro enc_renorm_reach enc_reach_split)

lemma dec_fill_bounds:
  "dec_fill n d = Inr d' \<Longrightarrow> dec_lo d' = dec_lo d \<and> dec_hi d' = dec_hi d \<and> dec_bytes d' = dec_bytes d"
proof (induction n arbitrary: d)
  case 0
  then show ?case by simp
next
  case (Suc n)
  show ?case
  proof (cases "dec_read_pos d < length (dec_bytes d)")
    case True
    then show ?thesis
      using Suc.prems Suc.IH by (fastforce simp: dec_next_Inr)
  next
    case False
    then show ?thesis using Suc.prems by (simp add: dec_next_Inl)
  qed
qed

lemma dec_shift_keeps:
  assumes "renorm_guard (dec_lo d) (dec_hi d)" "dec_shift d = Inr d'"
    "dec_lo d \<le> dec_code d" "dec_code d \<le> dec_hi d"
  shows "dec_lo d' \<le> dec_code d' \<and> dec_code d' \<le> dec_hi d'"
proof -
  have inb: "dec_read_pos d < length (dec_bytes d)"
    using assms(2) by (cases "dec_read_pos d < length (dec_bytes d)") (simp_all add: dec_shift_Inl)
  have l: "unat (dec_lo d) \<le> unat (dec_code d)" and h: "unat (dec_code d) \<le> unat (dec_hi d)"
    using assms(3,4) by (simp_all add: word_le_nat_alt)
  have t: "unat (dec_lo d) div 2 ^ 24 = unat (dec_hi d) div 2 ^ 24"
    using assms(1) by (simp add: renorm_guard_iff)
  have c: "unat (dec_code d) div 2 ^ 24 = unat (dec_lo d) div 2 ^ 24"
    by (rule between_top [OF l h t])
  have lm: "unat (dec_lo d) mod 2 ^ 24 \<le> unat (dec_code d) mod 2 ^ 24"
    using l c by (intro same_top_mod) simp_all
  have hm: "unat (dec_code d) mod 2 ^ 24 \<le> unat (dec_hi d) mod 2 ^ 24"
    using h c t by (intro same_top_mod) simp_all
  have b: "unat (dec_bytes d ! dec_read_pos d) \<le> 255"
    using unat_u8_less [of "dec_bytes d ! dec_read_pos d"] by simp
  show ?thesis
    using assms(2) lm hm b unfolding dec_shift_Inr [OF inb]
    by (auto simp: word_le_nat_alt unat_shl_lo unat_shl_hi unat_code_shift)
qed

lemma dec_split_keeps:
  assumes "dec_lo d \<le> dec_code d" "dec_code d \<le> dec_hi d"
  shows "dec_lo (snd (dec_split d p)) \<le> dec_code (snd (dec_split d p)) \<and>
         dec_code (snd (dec_split d p)) \<le> dec_hi (snd (dec_split d p))"
proof (cases "dec_code d \<le> midpoint (dec_lo d) (dec_hi d) p")
  case True
  then show ?thesis using assms by (simp add: dec_split_def Let_def)
next
  case False
  then have "midpoint (dec_lo d) (dec_hi d) p < dec_code d" by simp
  then have "midpoint (dec_lo d) (dec_hi d) p + 1 \<le> dec_code d" by (rule inc_le)
  then show ?thesis using assms False by (simp add: dec_split_def Let_def)
qed

lemma dec_reach_between: "dec_reach d \<Longrightarrow> dec_lo d \<le> dec_code d \<and> dec_code d \<le> dec_hi d"
proof (induction rule: dec_reach.induct)
  case (dec_reach_init source d)
  then show ?case
    using dec_fill_bounds [of 4 _ d] by (simp add: BinArithDecoder_init_def)
next
  case (dec_reach_split d p)
  then show ?case by (simp add: dec_split_keeps)
next
  case (dec_reach_shift d d')
  then show ?case using dec_shift_keeps [of d d'] by simp
qed

lemma dec_renorm_reach: "dec_reach d \<Longrightarrow> dec_renorm d = Inr d' \<Longrightarrow> dec_reach d'"
proof (induction d rule: dec_renorm.induct)
  case (1 d)
  show ?case
  proof (cases "renorm_guard (dec_lo d) (dec_hi d)")
    case True
    obtain d1 where s: "dec_shift d = Inr d1" and r: "dec_renorm d1 = Inr d'"
      using "1.prems"(2) True by (auto simp: dec_renorm.simps [of d] split: sum.splits)
    show ?thesis
      by (rule "1.IH" [OF True s dec_reach_shift [OF "1.prems"(1) True s] r])
  next
    case False
    then show ?thesis
      using "1.prems" by (simp add: dec_renorm.simps [of d])
  qed
qed

lemma dec_decode_reach:
  assumes "dec_reach d" "BinArithDecoder_decode d p = Inr (b, d')"
  shows "dec_reach d'"
proof -
  have "dec_renorm (snd (dec_split d p)) = Inr d'"
    using assms(2) by (auto simp: BinArithDecoder_decode_def split: prod.splits sum.splits)
  then show ?thesis
    using dec_reach_split [OF assms(1), of p] by (rule dec_renorm_reach [rotated])
qed

lemma init_big_endian:
  "BinArithDecoder_init (b0 # b1 # b2 # b3 # rest) =
     Inr \<lparr>dec_code = push_bit 24 (ucast b0) OR push_bit 16 (ucast b1) OR push_bit 8 (ucast b2) OR ucast b3,
          dec_lo = 0, dec_hi = 0xFFFFFFFF, dec_bytes = b0 # b1 # b2 # b3 # rest, dec_read_pos = 4\<rparr>"
  by (simp add: init_four push_bit_or or.assoc)

text \<open>
  C9. The decoder's \<^verbatim>\<open>code\<close> lies between \<^verbatim>\<open>lo\<close> and \<^verbatim>\<open>hi\<close> in every state the decoder
  reaches: after construction (which sets \<^verbatim>\<open>lo = 0\<close>, \<^verbatim>\<open>hi = 2^32 - 1\<close> and assembles
  \<^verbatim>\<open>code\<close> from the first four bytes, most significant first), after every subdivision
  and after every iteration of the renormalization loop, whatever the input bytes and
  the probabilities are. The states between \<^verbatim>\<open>decode\<close> calls are among them.
\<close>

theorem code_between_bounds:
  "(dec_reach d \<longrightarrow> dec_lo d \<le> dec_code d \<and> dec_code d \<le> dec_hi d)
   \<and> (dec_reach d \<and> BinArithDecoder_decode d p = Inr (b, d') \<longrightarrow> dec_reach d')
   \<and> BinArithDecoder_init (b0 # b1 # b2 # b3 # rest) =
       Inr \<lparr>dec_code = push_bit 24 (ucast b0) OR push_bit 16 (ucast b1) OR push_bit 8 (ucast b2) OR ucast b3,
            dec_lo = 0, dec_hi = 0xFFFFFFFF, dec_bytes = b0 # b1 # b2 # b3 # rest, dec_read_pos = 4\<rparr>"
  using dec_reach_between [of d] dec_decode_reach [of d p b d'] init_big_endian [of b0 b1 b2 b3 rest]
  by blast

lemma init_example:
  "BinArithDecoder_init [0, 0, 0, 0, 0, 0, 0, 0] =
     Inr \<lparr>dec_code = 0, dec_lo = 0, dec_hi = NOT 0, dec_bytes = [0, 0, 0, 0, 0, 0, 0, 0], dec_read_pos = 4\<rparr>"
  by (simp add: init_four)

theorem code_between_bounds_witness:
  "dec_reach \<lparr>dec_code = 0, dec_lo = 0, dec_hi = NOT 0, dec_bytes = [0, 0, 0, 0, 0, 0, 0, 0], dec_read_pos = 4\<rparr>
   \<and> (0 :: u32) \<le> 0 \<and> (0 :: u32) \<le> NOT 0
   \<and> BinArithDecoder_decode
       \<lparr>dec_code = 0, dec_lo = 0, dec_hi = NOT 0, dec_bytes = [0, 0, 0, 0, 0, 0, 0, 0], dec_read_pos = 4\<rparr> 1
     = Inr (1, \<lparr>dec_code = 0, dec_lo = 0, dec_hi = 0x0FFFFFFF, dec_bytes = [0, 0, 0, 0, 0, 0, 0, 0],
                 dec_read_pos = 5\<rparr>)
   \<and> dec_reach \<lparr>dec_code = 0, dec_lo = 0, dec_hi = 0x0FFFFFFF, dec_bytes = [0, 0, 0, 0, 0, 0, 0, 0],
                 dec_read_pos = 5\<rparr>"
proof -
  let ?d0 = "\<lparr>dec_code = 0, dec_lo = 0, dec_hi = NOT 0, dec_bytes = [0, 0, 0, 0, 0, 0, 0, 0 :: u8],
    dec_read_pos = 4\<rparr>"
  let ?d1 = "\<lparr>dec_code = 0, dec_lo = 0, dec_hi = 0x0FFFFFFF, dec_bytes = [0, 0, 0, 0, 0, 0, 0, 0 :: u8],
    dec_read_pos = 5\<rparr>"
  have r: "dec_reach ?d0" by (rule dec_reach_init [OF init_example])
  have "dec_lo ?d0 \<le> dec_code ?d0 \<and> dec_code ?d0 \<le> dec_hi ?d0" and "dec_reach ?d1"
    using code_between_bounds [of ?d0 1 1 ?d1] r decode_example by blast+
  then show ?thesis
    using r decode_example by simp
qed

text \<open>
  C3. In every state an encoder or a decoder reaches from its initial state
  (\<^verbatim>\<open>lo = 0\<close>, \<^verbatim>\<open>hi = 2^32 - 1\<close>) with probabilities strictly between 0 and \<^verbatim>\<open>kProbMax\<close>,
  after a subdivision and after every iteration of the renormalization loop,
  \<^verbatim>\<open>lo <= hi\<close>. Between calls \<^verbatim>\<open>lo < hi\<close>, so that the midpoint \<^verbatim>\<open>x\<close> is below \<^verbatim>\<open>hi\<close>,
  \<^verbatim>\<open>x + 1\<close> does not wrap around, and the branch for the bit 0 leaves \<^verbatim>\<open>lo = x + 1 <= hi\<close>.
  The states between the calls of \<^verbatim>\<open>encode\<close> and of \<^verbatim>\<open>decode\<close> are among the reachable
  ones. (For the decoder the order holds with any probability.)
\<close>

theorem bounds_stay_ordered:
  "(enc_reach ph e \<longrightarrow> enc_lo e \<le> enc_hi e)
   \<and> (enc_reach Idle e \<and> 0 < p \<and> p < kProbMax \<longrightarrow>
        midpoint (enc_lo e) (enc_hi e) p < enc_hi e
        \<and> enc_lo (enc_split e 0 p) = midpoint (enc_lo e) (enc_hi e) p + 1
        \<and> enc_lo (enc_split e 0 p) \<le> enc_hi (enc_split e 0 p)
        \<and> enc_reach Idle (BinArithEncoder_encode e b p))
   \<and> (dec_reach d \<longrightarrow> dec_lo d \<le> dec_hi d)
   \<and> (dec_reach d \<and> BinArithDecoder_decode d q = Inr (b', d') \<longrightarrow> dec_reach d')"
proof -
  have enc: "enc_lo e \<le> enc_hi e" if "enc_reach ph e"
    using enc_reach_order [OF that] by simp
  have zero: "midpoint (enc_lo e) (enc_hi e) p < enc_hi e
        \<and> enc_lo (enc_split e 0 p) = midpoint (enc_lo e) (enc_hi e) p + 1
        \<and> enc_lo (enc_split e 0 p) \<le> enc_hi (enc_split e 0 p)
        \<and> enc_reach Idle (BinArithEncoder_encode e b p)"
    if r: "enc_reach Idle e" and p: "0 < p" "p < kProbMax"
  proof -
    have "enc_lo e < enc_hi e" using enc_reach_order [OF r] by simp
    from split_keeps_order(2,3) [OF this p(2)] enc_encode_reach [OF r p, of b]
    show ?thesis by (simp add: enc_split_def Let_def)
  qed
  have dec: "dec_lo d \<le> dec_hi d" if "dec_reach d"
    using dec_reach_between [OF that] by (blast intro: order_trans)
  show ?thesis
    using enc zero dec dec_decode_reach [of d q b' d'] by blast
qed

theorem bounds_stay_ordered_witness:
  "enc_reach Idle (BinArithEncoder_init [])
   \<and> enc_lo (BinArithEncoder_init []) \<le> enc_hi (BinArithEncoder_init [])
   \<and> (0 :: u32) < 2048 \<and> 2048 < kProbMax
   \<and> midpoint (enc_lo (BinArithEncoder_init [])) (enc_hi (BinArithEncoder_init [])) 2048
       < enc_hi (BinArithEncoder_init [])
   \<and> enc_lo (enc_split (BinArithEncoder_init []) 0 2048) \<le> enc_hi (enc_split (BinArithEncoder_init []) 0 2048)
   \<and> enc_reach Idle (BinArithEncoder_encode (BinArithEncoder_init []) 0 2048)
   \<and> dec_reach \<lparr>dec_code = 0, dec_lo = 0, dec_hi = NOT 0, dec_bytes = [0, 0, 0, 0, 0, 0, 0, 0], dec_read_pos = 4\<rparr>
   \<and> dec_lo \<lparr>dec_code = 0, dec_lo = 0, dec_hi = NOT 0, dec_bytes = [0, 0, 0, 0, 0, 0, 0, 0], dec_read_pos = 4\<rparr>
       \<le> dec_hi \<lparr>dec_code = 0, dec_lo = 0, dec_hi = NOT 0, dec_bytes = [0, 0, 0, 0, 0, 0, 0, 0], dec_read_pos = 4\<rparr>
   \<and> dec_reach \<lparr>dec_code = 0, dec_lo = 0, dec_hi = 0x0FFFFFFF, dec_bytes = [0, 0, 0, 0, 0, 0, 0, 0],
                 dec_read_pos = 5\<rparr>"
proof -
  let ?d0 = "\<lparr>dec_code = 0, dec_lo = 0, dec_hi = NOT 0, dec_bytes = [0, 0, 0, 0, 0, 0, 0, 0 :: u8],
    dec_read_pos = 4\<rparr>"
  let ?d1 = "\<lparr>dec_code = 0, dec_lo = 0, dec_hi = 0x0FFFFFFF, dec_bytes = [0, 0, 0, 0, 0, 0, 0, 0 :: u8],
    dec_read_pos = 5\<rparr>"
  have r: "dec_reach ?d0" by (rule dec_reach_init [OF init_example])
  have e: "enc_reach Idle (BinArithEncoder_init [])" by (rule enc_reach_init)
  have p: "(0 :: u32) < 2048" "2048 < kProbMax"
    by (simp_all add: kProbMax_def kProbBits_def)
  from bounds_stay_ordered [of Idle "BinArithEncoder_init []" 2048 0 ?d0 1 1 ?d1] r e p decode_example
  show ?thesis by blast
qed

section \<open>The decoder follows the encoder\<close>

text \<open>
  The four bytes of a stream from position \<open>n\<close> on, read as a number, most significant
  byte first: what the decoder holds in \<^verbatim>\<open>code\<close> when its cursor is at \<open>n + 4\<close>.
\<close>

definition window :: "ByteVec \<Rightarrow> nat \<Rightarrow> nat" where
  "window B n =
     ((unat (B ! n) * 256 + unat (B ! (n + 1))) * 256 + unat (B ! (n + 2))) * 256 + unat (B ! (n + 3))"

text \<open>
  A stream \<open>B\<close> continues an encoder state when it starts with the bytes emitted so far,
  has four more bytes at least, and the number in its next four bytes lies in the
  current interval.
\<close>

definition future :: "ByteVec \<Rightarrow> BinArithEncoder \<Rightarrow> bool" where
  "future B e \<longleftrightarrow>
     take (length (enc_bytes e)) B = enc_bytes e \<and> length (enc_bytes e) + 4 \<le> length B \<and>
     unat (enc_lo e) \<le> window B (length (enc_bytes e)) \<and>
     window B (length (enc_bytes e)) \<le> unat (enc_hi e)"

text \<open>A decoder over \<open>B\<close> is in step with an encoder state.\<close>

definition synced :: "ByteVec \<Rightarrow> BinArithEncoder \<Rightarrow> BinArithDecoder \<Rightarrow> bool" where
  "synced B e d \<longleftrightarrow>
     dec_lo d = enc_lo e \<and> dec_hi d = enc_hi e \<and> dec_bytes d = B \<and>
     dec_read_pos d = length (enc_bytes e) + 4 \<and>
     unat (dec_code d) = window B (length (enc_bytes e))"

text \<open>Encoder states linked by \<^verbatim>\<open>encode\<close> calls with probabilities below \<^verbatim>\<open>kProbMax\<close>.\<close>

inductive enc_steps :: "BinArithEncoder \<Rightarrow> BinArithEncoder \<Rightarrow> bool" where
  enc_steps_refl: "enc_steps e e"
| enc_steps_step: "p < kProbMax \<Longrightarrow> enc_steps (BinArithEncoder_encode e b p) e' \<Longrightarrow> enc_steps e e'"

lemma enc_steps_trans: "enc_steps a b \<Longrightarrow> enc_steps b c \<Longrightarrow> enc_steps a c"
  by (induction rule: enc_steps.induct) (auto intro: enc_steps.intros)

lemma bytes3_less:
  fixes b c d :: nat
  assumes "b < 256" "c < 256" "d < 256"
  shows "(b * 256 + c) * 256 + d < 16777216"
proof -
  have "(b * 256 + c) * 256 + d = b * 65536 + c * 256 + d" by (simp add: algebra_simps)
  then show ?thesis using assms by linarith
qed

lemma div_mod_parts:
  fixes a r k :: nat
  assumes "r < k"
  shows "(a * k + r) div k = a" and "(a * k + r) mod k = r"
  using assms by simp_all

lemma window_split:
  "window B n = unat (B ! n) * 16777216 +
     ((unat (B ! (n + 1)) * 256 + unat (B ! (n + 2))) * 256 + unat (B ! (n + 3)))"
  unfolding window_def by (simp add: algebra_simps)

lemma window_low_less:
  "(unat ((B :: ByteVec) ! (n + 1)) * 256 + unat (B ! (n + 2))) * 256 + unat (B ! (n + 3)) < 16777216"
  by (rule bytes3_less) (rule unat_u8_less)+

lemma window_top: "window B n div 16777216 = unat (B ! n)"
  unfolding window_split by (rule div_mod_parts(1) [OF window_low_less])

lemma window_low:
  "window B n mod 16777216 =
     (unat (B ! (n + 1)) * 256 + unat (B ! (n + 2))) * 256 + unat (B ! (n + 3))"
  unfolding window_split by (rule div_mod_parts(2) [OF window_low_less])

lemma window_next: "window B (n + 1) = (window B n mod 16777216) * 256 + unat (B ! (n + 4))"
proof -
  have e: "n + 1 + 1 = n + 2" "n + 1 + 2 = n + 3" "n + 1 + 3 = n + 4" by simp_all
  show ?thesis
    by (simp only: window_low) (simp only: window_def e)
qed

lemma window_less: "window B n < 4294967296"
proof -
  have "unat (B ! n) < 256" by (rule unat_u8_less)
  then show ?thesis
    using window_low_less [of B n] unfolding window_split by linarith
qed

lemma future_split:
  assumes "enc_lo e < enc_hi e" "p < kProbMax" "future B (enc_split e b p)"
  shows "future B e"
proof (cases "b = 0")
  case True
  have x: "midpoint (enc_lo e) (enc_hi e) p < enc_hi e" "enc_lo e \<le> midpoint (enc_lo e) (enc_hi e) p + 1"
    using split_keeps_order [OF assms(1,2)] by simp_all
  then have "unat (enc_lo e) \<le> unat (midpoint (enc_lo e) (enc_hi e) p + 1)"
    by (simp add: word_le_nat_alt)
  then show ?thesis
    using assms(3) True by (simp add: future_def enc_split_def Let_def)
next
  case False
  have "midpoint (enc_lo e) (enc_hi e) p < enc_hi e"
    using split_keeps_order [OF assms(1,2)] by simp
  then have "unat (midpoint (enc_lo e) (enc_hi e) p) \<le> unat (enc_hi e)"
    by (simp add: word_less_nat_alt)
  then show ?thesis
    using assms(3) False by (simp add: future_def enc_split_def Let_def)
qed

lemma scaled_bounds:
  fixes l w h e :: nat
  assumes "l * 256 \<le> w * 256 + e" "w * 256 + e \<le> h * 256 + 255" "e < 256"
  shows "l \<le> w" and "w \<le> h"
  using assms by linarith+

lemma top_and_low:
  fixes a c :: nat
  assumes "a div k = c div k" "a mod k \<le> c mod k"
  shows "a \<le> c"
proof -
  have "a = k * (c div k) + a mod k"
    using assms(1) by (metis mult_div_mod_eq)
  moreover have "c = k * (c div k) + c mod k"
    by simp
  ultimately show ?thesis
    using assms(2) by linarith
qed

lemma future_shift_parts:
  assumes "future B (enc_shift e)"
  shows "take (length (enc_bytes e) + 1) B = enc_bytes e @ [ucast (drop_bit 24 (enc_lo e))]"
    and "length (enc_bytes e) + 5 \<le> length B"
    and "unat (shl_lo (enc_lo e)) \<le> window B (length (enc_bytes e) + 1)"
    and "window B (length (enc_bytes e) + 1) \<le> unat (shl_hi (enc_hi e))"
  using assms unfolding future_def enc_shift_def by simp_all

lemma take_snoc_parts:
  assumes "take (n + 1) B = bs @ [t]" "length bs = n"
  shows "take n B = bs" and "B ! n = t"
proof -
  have "take n (take (n + 1) B) = take n (bs @ [t])"
    by (simp only: assms(1))
  then show "take n B = bs"
    using assms(2) by simp
  have "B ! n = take (n + 1) B ! n"
    by simp
  also have "\<dots> = (bs @ [t]) ! length bs"
    by (simp only: assms)
  also have "\<dots> = t"
    by (rule nth_append_length)
  finally show "B ! n = t" .
qed

lemma future_shift:
  assumes "renorm_guard (enc_lo e) (enc_hi e)" "future B (enc_shift e)"
  shows "future B e"
proof -
  let ?n = "length (enc_bytes e)"
  note parts = future_shift_parts [OF assms(2)]
  have pre: "take ?n B = enc_bytes e"
    and top_byte: "B ! ?n = ucast (drop_bit 24 (enc_lo e))"
    using take_snoc_parts [OF parts(1) refl] by blast+
  have top: "window B ?n div 16777216 = unat (enc_lo e) div 16777216"
    using unat_top_byte [of "enc_lo e"] by (simp only: window_top top_byte) simp
  have g: "unat (enc_lo e) div 16777216 = unat (enc_hi e) div 16777216"
    using assms(1) by (simp add: renorm_guard_iff)
  have b: "unat (B ! (?n + 4)) < 256" by (rule unat_u8_less)
  have l: "unat (enc_lo e) mod 16777216 * 256 \<le> window B ?n mod 16777216 * 256 + unat (B ! (?n + 4))"
    using parts(3) unat_shl_lo [of "enc_lo e"] by (simp only: window_next) simp
  have h: "window B ?n mod 16777216 * 256 + unat (B ! (?n + 4))
      \<le> unat (enc_hi e) mod 16777216 * 256 + 255"
    using parts(4) unat_shl_hi [of "enc_hi e"] by (simp only: window_next) simp
  have m: "unat (enc_lo e) mod 16777216 \<le> window B ?n mod 16777216"
      "window B ?n mod 16777216 \<le> unat (enc_hi e) mod 16777216"
    using scaled_bounds [OF l h b] by blast+
  have "unat (enc_lo e) \<le> window B ?n"
    by (rule top_and_low [OF top [symmetric] m(1)])
  moreover have "window B ?n \<le> unat (enc_hi e)"
    by (rule top_and_low [OF trans [OF top g] m(2)])
  ultimately show ?thesis
    using pre parts(2) by (simp add: future_def)
qed

lemma enc_renorm_order:
  "enc_lo e \<le> enc_hi e \<Longrightarrow> enc_lo (enc_renorm e) \<le> enc_hi (enc_renorm e)"
proof (induction e rule: enc_renorm.induct)
  case (1 e)
  show ?case
  proof (cases "renorm_guard (enc_lo e) (enc_hi e)")
    case True
    have "enc_lo (enc_shift e) \<le> enc_hi (enc_shift e)"
      using shl_keeps_order [OF True "1.prems"] by (simp add: enc_shift_def)
    then show ?thesis
      using "1.IH" [OF True] True by (simp add: enc_renorm.simps [of e])
  next
    case False
    then show ?thesis using "1.prems" by (simp add: enc_renorm.simps [of e])
  qed
qed

lemma future_renorm:
  "enc_lo e \<le> enc_hi e \<Longrightarrow> future B (enc_renorm e) \<Longrightarrow> future B e"
proof (induction e rule: enc_renorm.induct)
  case (1 e)
  show ?case
  proof (cases "renorm_guard (enc_lo e) (enc_hi e)")
    case True
    have o: "enc_lo (enc_shift e) \<le> enc_hi (enc_shift e)"
      using shl_keeps_order [OF True "1.prems"(1)] by (simp add: enc_shift_def)
    have "future B (enc_renorm (enc_shift e))"
      using "1.prems"(2) True by (simp add: enc_renorm.simps [of e])
    then have "future B (enc_shift e)"
      by (rule "1.IH" [OF True o])
    then show ?thesis
      by (rule future_shift [OF True])
  next
    case False
    then show ?thesis using "1.prems"(2) by (simp add: enc_renorm.simps [of e])
  qed
qed

lemma enc_split_order:
  assumes "enc_lo e < enc_hi e" "p < kProbMax"
  shows "enc_lo (enc_split e b p) \<le> enc_hi (enc_split e b p)"
  using split_keeps_order [OF assms] by (simp add: enc_split_def Let_def)

lemma encode_keeps_apart:
  assumes "enc_lo e < enc_hi e" "p < kProbMax"
  shows "enc_lo (BinArithEncoder_encode e b p) < enc_hi (BinArithEncoder_encode e b p)"
proof -
  have "enc_lo (BinArithEncoder_encode e b p) \<le> enc_hi (BinArithEncoder_encode e b p)"
    unfolding BinArithEncoder_encode_def
    by (rule enc_renorm_order [OF enc_split_order [OF assms]])
  moreover have "enc_lo (BinArithEncoder_encode e b p) \<noteq> enc_hi (BinArithEncoder_encode e b p)"
    unfolding BinArithEncoder_encode_def
    by (rule guard_not_equal [OF enc_renorm_stops])
  ultimately show ?thesis by simp
qed

lemma future_encode:
  assumes "enc_lo e < enc_hi e" "p < kProbMax" "future B (BinArithEncoder_encode e b p)"
  shows "future B e"
proof -
  have "future B (enc_split e b p)"
    using assms(3) unfolding BinArithEncoder_encode_def
    by (rule future_renorm [OF enc_split_order [OF assms(1,2)]])
  then show ?thesis by (rule future_split [OF assms(1,2)])
qed

lemma four_bytes_value:
  fixes l :: nat
  shows "((l div 16777216 * 256 + l div 65536 mod 256) * 256 + l div 256 mod 256) * 256 + l mod 256 = l"
proof -
  have a: "l div 256 div 256 = l div 65536" "l div 65536 div 256 = l div 16777216"
    by (simp_all add: div_mult2_eq [symmetric])
  have s1: "l = l div 256 * 256 + l mod 256" by simp
  have s2: "l div 256 = l div 65536 * 256 + l div 256 mod 256"
    using div_mult_mod_eq [of "l div 256" 256] by (simp only: a)
  have s3: "l div 65536 = l div 16777216 * 256 + l div 65536 mod 256"
    using div_mult_mod_eq [of "l div 65536" 256] by (simp only: a)
  show ?thesis
    using s1 s2 s3 by metis
qed

lemma unat_byte_of:
  "unat (ucast (drop_bit k (l :: u32)) :: u8) = unat l div 2 ^ k mod 256"
  by (simp add: unsigned_ucast_eq take_bit_eq_mod unat_shr)

lemma future_finish: "enc_lo e \<le> enc_hi e \<Longrightarrow> future (BinArithEncoder_finish e) e"
proof -
  assume o: "enc_lo e \<le> enc_hi e"
  let ?n = "length (enc_bytes e)"
  let ?l = "unat (enc_lo e)"
  have d: "?l div 16777216 mod 256 = ?l div 16777216"
    using unat_u32_less [of "enc_lo e"] by simp
  have "window (BinArithEncoder_finish e) ?n =
      ((?l div 16777216 * 256 + ?l div 65536 mod 256) * 256 + ?l div 256 mod 256) * 256 + ?l mod 256"
    using unat_byte_of [of 24 "enc_lo e"] unat_byte_of [of 16 "enc_lo e"]
      unat_byte_of [of 8 "enc_lo e"] unat_byte_of [of 0 "enc_lo e"]
    by (simp add: window_def finish_bytes nth_append d)
  then have "window (BinArithEncoder_finish e) ?n = ?l"
    by (simp only: four_bytes_value)
  then show ?thesis
    using o by (simp add: future_def finish_bytes word_le_nat_alt)
qed

lemma future_steps:
  "enc_steps e e' \<Longrightarrow> enc_lo e < enc_hi e \<Longrightarrow>
     future (BinArithEncoder_finish e') e \<and> enc_lo e' < enc_hi e'"
proof (induction rule: enc_steps.induct)
  case (enc_steps_refl e)
  then show ?case by (simp add: future_finish)
next
  case (enc_steps_step p e b e')
  have "enc_lo (BinArithEncoder_encode e b p) < enc_hi (BinArithEncoder_encode e b p)"
    by (rule encode_keeps_apart [OF enc_steps_step.prems enc_steps_step.hyps(1)])
  then show ?case
    using enc_steps_step.IH future_encode [OF enc_steps_step.prems enc_steps_step.hyps(1)] by blast
qed

lemma first_four:
  assumes "4 \<le> length (B :: ByteVec)"
  obtains b0 b1 b2 b3 rest where "B = b0 # b1 # b2 # b3 # rest"
proof -
  obtain b0 r0 where 0: "B = b0 # r0" using assms by (cases B) auto
  obtain b1 r1 where 1: "r0 = b1 # r1" using assms 0 by (cases r0) auto
  obtain b2 r2 where 2: "r1 = b2 # r2" using assms 0 1 by (cases r1) auto
  obtain b3 r3 where 3: "r2 = b3 # r3" using assms 0 1 2 by (cases r2) auto
  show ?thesis using that [of b0 b1 b2 b3 r3] 0 1 2 3 by simp
qed

lemma code_shift_small:
  assumes "unat (c :: u32) < 16777216"
  shows "unat (push_bit 8 c OR ucast (b :: u8)) = unat c * 256 + unat b"
proof -
  have "unat c mod 2 ^ 24 = unat c" using assms by simp
  then show ?thesis by (simp only: unat_code_shift)
qed

lemma unat_code_of_four:
  "unat (push_bit 8 (push_bit 8 (push_bit 8 (push_bit 8 (0 :: u32) OR ucast (a :: u8)) OR ucast (b :: u8))
      OR ucast (c :: u8)) OR ucast (d :: u8))
   = ((unat a * 256 + unat b) * 256 + unat c) * 256 + unat d"
proof -
  define c1 :: u32 where "c1 = push_bit 8 0 OR ucast a"
  define c2 :: u32 where "c2 = push_bit 8 c1 OR ucast b"
  define c3 :: u32 where "c3 = push_bit 8 c2 OR ucast c"
  have a: "unat a < 256" and b: "unat b < 256" and c: "unat c < 256"
    by (rule unat_u8_less)+
  have "unat (0 :: u32) < 16777216" by simp
  then have "unat c1 = unat (0 :: u32) * 256 + unat a"
    unfolding c1_def by (rule code_shift_small)
  then have 1: "unat c1 = unat a" by simp
  have "unat c1 < 16777216" using a 1 by simp
  then have "unat c2 = unat c1 * 256 + unat b"
    unfolding c2_def by (rule code_shift_small)
  then have 2: "unat c2 = unat a * 256 + unat b" by (simp only: 1)
  have "unat c2 < 16777216" using a b 2 by simp
  then have "unat c3 = unat c2 * 256 + unat c"
    unfolding c3_def by (rule code_shift_small)
  then have 3: "unat c3 = (unat a * 256 + unat b) * 256 + unat c" by (simp only: 2)
  have "unat c3 < 16777216"
    unfolding 3 by (rule bytes3_less [OF a b c])
  then have "unat (push_bit 8 c3 OR ucast d) = unat c3 * 256 + unat d"
    by (rule code_shift_small)
  then have "unat (push_bit 8 c3 OR ucast d) = ((unat a * 256 + unat b) * 256 + unat c) * 256 + unat d"
    by (simp only: 3)
  then show ?thesis
    unfolding c3_def c2_def c1_def .
qed

lemma sync_init:
  assumes "future B (BinArithEncoder_init [])"
  shows "\<exists>d. BinArithDecoder_init B = Inr d \<and> synced B (BinArithEncoder_init []) d"
proof -
  have "4 \<le> length B"
    using assms by (simp add: future_def BinArithEncoder_init_def)
  then obtain b0 b1 b2 b3 rest where B: "B = b0 # b1 # b2 # b3 # rest"
    by (rule first_four)
  define c :: u32 where
    "c = push_bit 8 (push_bit 8 (push_bit 8 (push_bit 8 0 OR ucast b0) OR ucast b1) OR ucast b2) OR ucast b3"
  have w: "window B 0 = ((unat b0 * 256 + unat b1) * 256 + unat b2) * 256 + unat b3"
    by (simp add: window_def B)
  have u: "unat c = window B 0"
    unfolding c_def by (simp only: unat_code_of_four w)
  have i: "BinArithDecoder_init B =
      Inr \<lparr>dec_code = c, dec_lo = 0, dec_hi = NOT 0, dec_bytes = B, dec_read_pos = 4\<rparr>"
    unfolding B c_def by (rule init_four)
  show ?thesis
    using u by (simp add: i synced_def BinArithEncoder_init_def)
qed

lemma sync_split:
  assumes "synced B e d" "enc_lo e < enc_hi e" "p < kProbMax" "b = 0 \<or> b = 1"
    "future B (enc_split e b p)"
  shows "fst (dec_split d p) = b \<and> synced B (enc_split e b p) (snd (dec_split d p))"
proof -
  let ?x = "midpoint (enc_lo e) (enc_hi e) p"
  have s: "dec_lo d = enc_lo e" "dec_hi d = enc_hi e"
    "unat (dec_code d) = window B (length (enc_bytes e))"
    using assms(1) by (simp_all add: synced_def)
  show ?thesis
  proof (cases "b = 0")
    case True
    have "?x < enc_hi e" using split_keeps_order [OF assms(2,3)] by simp
    then have "unat (?x + 1) = unat ?x + 1" by (rule unat_succ)
    moreover have "unat (?x + 1) \<le> unat (dec_code d)"
      using assms(5) True by (simp add: future_def enc_split_def Let_def s)
    ultimately have "\<not> dec_code d \<le> ?x"
      by (simp add: word_le_nat_alt)
    then show ?thesis
      using assms(1) True by (simp add: dec_split_def Let_def s synced_def enc_split_def)
  next
    case False
    then have b1: "b = 1" using assms(4) by simp
    have "unat (dec_code d) \<le> unat ?x"
      using assms(5) b1 by (simp add: future_def enc_split_def Let_def s)
    then have "dec_code d \<le> ?x"
      by (simp add: word_le_nat_alt)
    then show ?thesis
      using assms(1) b1 by (simp add: dec_split_def Let_def s synced_def enc_split_def)
  qed
qed

lemma sync_shift:
  assumes "synced B e d" "future B (enc_shift e)"
  shows "\<exists>d'. dec_shift d = Inr d' \<and> synced B (enc_shift e) d'"
proof -
  let ?n = "length (enc_bytes e)"
  have s: "dec_lo d = enc_lo e" "dec_hi d = enc_hi e" "dec_bytes d = B"
    "dec_read_pos d = ?n + 4" "unat (dec_code d) = window B ?n"
    using assms(1) by (simp_all add: synced_def)
  have len: "?n + 5 \<le> length B"
    by (rule future_shift_parts(2) [OF assms(2)])
  then have inb: "dec_read_pos d < length (dec_bytes d)"
    by (simp add: s)
  have c: "unat (push_bit 8 (dec_code d) OR ucast (B ! (?n + 4))) = window B (?n + 1)"
    by (simp only: unat_code_shift s(5) window_next) simp
  show ?thesis
    unfolding dec_shift_Inr [OF inb]
    using c by (simp add: synced_def enc_shift_def s)
qed

lemma sync_renorm:
  "synced B e d \<Longrightarrow> enc_lo e \<le> enc_hi e \<Longrightarrow> future B (enc_renorm e) \<Longrightarrow>
     \<exists>d'. dec_renorm d = Inr d' \<and> synced B (enc_renorm e) d'"
proof (induction e arbitrary: d rule: enc_renorm.induct)
  case (1 e)
  have s: "dec_lo d = enc_lo e" "dec_hi d = enc_hi e"
    using "1.prems"(1) by (simp_all add: synced_def)
  show ?case
  proof (cases "renorm_guard (enc_lo e) (enc_hi e)")
    case True
    have o: "enc_lo (enc_shift e) \<le> enc_hi (enc_shift e)"
      using shl_keeps_order [OF True "1.prems"(2)] by (simp add: enc_shift_def)
    have r: "enc_renorm e = enc_renorm (enc_shift e)"
      using True by (simp add: enc_renorm.simps [of e])
    have f: "future B (enc_renorm (enc_shift e))"
      using "1.prems"(3) by (simp only: r)
    have "future B (enc_shift e)"
      by (rule future_renorm [OF o f])
    then obtain d1 where d1: "dec_shift d = Inr d1" "synced B (enc_shift e) d1"
      using sync_shift [OF "1.prems"(1)] by blast
    obtain d' where "dec_renorm d1 = Inr d'" "synced B (enc_renorm (enc_shift e)) d'"
      using "1.IH" [OF True d1(2) o f] by blast
    then show ?thesis
      using True d1(1) by (simp add: dec_renorm.simps [of d] s r)
  next
    case False
    then show ?thesis
      using "1.prems"(1) by (simp add: dec_renorm.simps [of d] enc_renorm.simps [of e] s)
  qed
qed

lemma sync_encode:
  assumes "synced B e d" "enc_lo e < enc_hi e" "p < kProbMax" "b = 0 \<or> b = 1"
    "future B (BinArithEncoder_encode e b p)"
  shows "\<exists>d'. BinArithDecoder_decode d p = Inr (b, d') \<and> synced B (BinArithEncoder_encode e b p) d'"
proof -
  have o: "enc_lo (enc_split e b p) \<le> enc_hi (enc_split e b p)"
    by (rule enc_split_order [OF assms(2,3)])
  have f: "future B (enc_split e b p)"
    using assms(5) unfolding BinArithEncoder_encode_def by (rule future_renorm [OF o])
  obtain b1 d1 where sp: "dec_split d p = (b1, d1)" by (cases "dec_split d p")
  have d1: "b1 = b" "synced B (enc_split e b p) d1"
    using sync_split [OF assms(1-4) f] by (simp_all add: sp)
  obtain d' where "dec_renorm d1 = Inr d'" "synced B (enc_renorm (enc_split e b p)) d'"
    using sync_renorm [OF d1(2) o] assms(5) unfolding BinArithEncoder_encode_def by blast
  then show ?thesis
    by (simp add: BinArithDecoder_decode_def BinArithEncoder_encode_def sp d1(1))
qed

section \<open>Round trip with a static probability\<close>

lemma encode_bits_steps: "p < kProbMax \<Longrightarrow> enc_steps e (encode_bits e p S)"
proof (induction S arbitrary: e)
  case Nil
  show ?case by (simp add: enc_steps_refl)
next
  case (Cons b S)
  show ?case
    using enc_steps_step [OF Cons.prems Cons.IH [OF Cons.prems]] by simp
qed

lemma static_sync:
  assumes "p < kProbMax"
  shows "\<forall>b\<in>set S. b = 0 \<or> b = 1 \<Longrightarrow> synced B e d \<Longrightarrow> enc_lo e < enc_hi e \<Longrightarrow>
     B = BinArithEncoder_finish (encode_bits e p S) \<Longrightarrow>
     \<exists>d'. decode_bits (length S) d p = Inr (S, d')"
proof (induction S arbitrary: e d)
  case Nil
  show ?case by simp
next
  case (Cons b S)
  let ?e1 = "BinArithEncoder_encode e b p"
  have b: "b = 0 \<or> b = 1" using Cons.prems(1) by simp
  have apart: "enc_lo ?e1 < enc_hi ?e1"
    by (rule encode_keeps_apart [OF Cons.prems(3) assms])
  have B: "B = BinArithEncoder_finish (encode_bits ?e1 p S)"
    using Cons.prems(4) by simp
  have "future B ?e1"
    using future_steps [OF encode_bits_steps [OF assms] apart, of S] by (simp only: B)
  then obtain d1 where d1: "BinArithDecoder_decode d p = Inr (b, d1)" "synced B ?e1 d1"
    using sync_encode [OF Cons.prems(2,3) assms b] by blast
  have "\<forall>b\<in>set S. b = 0 \<or> b = 1" using Cons.prems(1) by simp
  then obtain d' where "decode_bits (length S) d1 p = Inr (S, d')"
    using Cons.IH [OF _ d1(2) apart B] by blast
  then show ?case
    using d1(1) by simp
qed

lemma init_apart: "enc_lo (BinArithEncoder_init target) < enc_hi (BinArithEncoder_init target)"
  by (simp add: BinArithEncoder_init_def word_gt_0)

text \<open>
  C1. For every sequence \<open>S\<close> of bits (0 or 1) and every probability \<open>p\<close> with
  \<^verbatim>\<open>0 < p < kProbMax\<close>: encoding \<open>S\<close> at \<open>p\<close> into an empty sink and running the destructor
  gives a byte stream from which a decoder, asked for as many bits at the same \<open>p\<close>,
  returns exactly \<open>S\<close>; no read leaves the stream.
\<close>

theorem static_round_trip:
  assumes "0 < p" and "p < kProbMax" and "\<forall>b\<in>set S. b = 0 \<or> b = 1"
  shows "decode_static p (length S) (encode_static p S) = Inr S"
proof -
  let ?e0 = "BinArithEncoder_init []"
  let ?B = "encode_static p S"
  have B: "?B = BinArithEncoder_finish (encode_bits ?e0 p S)"
    by (simp add: encode_static_def)
  have "future ?B ?e0"
    using future_steps [OF encode_bits_steps [OF assms(2)] init_apart, of "[]" S] by (simp only: B)
  then obtain d0 where d0: "BinArithDecoder_init ?B = Inr d0" "synced ?B ?e0 d0"
    using sync_init by blast
  obtain d' where "decode_bits (length S) d0 p = Inr (S, d')"
    using static_sync [OF assms(2,3) d0(2) init_apart B] by blast
  then show ?thesis
    using d0(1) by (simp add: decode_static_def)
qed

lemma encode_static_example:
  "encode_static 819 [1, 0, 0, 1, 0, 0, 0, 1, 1, 0, 0, 0] = [21, 175, 112, 190, 14]"
  by code_simp

theorem static_round_trip_witness:
  "(0 :: u32) < 819 \<and> 819 < kProbMax
   \<and> encode_static 819 [1, 0, 0, 1, 0, 0, 0, 1, 1, 0, 0, 0] = [21, 175, 112, 190, 14]
   \<and> decode_static 819 (length [1, 0, 0, 1, 0, 0, 0, 1, 1, 0, 0, 0 :: int])
        (encode_static 819 [1, 0, 0, 1, 0, 0, 0, 1, 1, 0, 0, 0])
      = Inr [1, 0, 0, 1, 0, 0, 0, 1, 1, 0, 0, 0]"
proof -
  have a: "(0 :: u32) < 819" by simp
  have b: "819 < kProbMax" by (simp add: kProbMax_def kProbBits_def)
  have c: "\<forall>b\<in>set [1, 0, 0, 1, 0, 0, 0, 1, 1, 0, 0, 0 :: int]. b = 0 \<or> b = 1" by simp
  from static_round_trip [OF a b c] a b encode_static_example
  show ?thesis by blast
qed

section \<open>Reads beyond the end of the source\<close>

lemma init_Inl:
  "BinArithDecoder_init source = Inl err \<longleftrightarrow> err = UndefinedBehaviour \<and> length source < 4"
proof (cases "length source < 4")
  case True
  then show ?thesis by (auto simp: init_short)
next
  case False
  then have "4 \<le> length source" by simp
  then obtain b0 b1 b2 b3 rest where "source = b0 # b1 # b2 # b3 # rest"
    by (rule first_four)
  then show ?thesis using False by (simp add: init_four)
qed

text \<open>
  C4 as stated does not hold: over a source of three bytes the constructor does not fail
  with an error the code reports, and neither does a \<^verbatim>\<open>decode\<close> call whose
  renormalization needs a fifth byte of a source of four. Both index the vector beyond
  its end without any check.
\<close>

theorem truncated_source_is_not_reported:
  "\<not> (\<exists>err. BinArithDecoder_init [0, 0, 0] = Inl err \<and> reported err)
   \<and> \<not> (\<exists>err. BinArithDecoder_decode
        \<lparr>dec_code = 0, dec_lo = 0, dec_hi = NOT 0, dec_bytes = [0, 0, 0, 0], dec_read_pos = 4\<rparr> 1
        = Inl err \<and> reported err)
   \<and> BinArithDecoder_init [0, 0, 0] = Inl UndefinedBehaviour
   \<and> BinArithDecoder_init [0, 0, 0, 0]
       = Inr \<lparr>dec_code = 0, dec_lo = 0, dec_hi = NOT 0, dec_bytes = [0, 0, 0, 0], dec_read_pos = 4\<rparr>
   \<and> BinArithDecoder_decode
        \<lparr>dec_code = 0, dec_lo = 0, dec_hi = NOT 0, dec_bytes = [0, 0, 0, 0], dec_read_pos = 4\<rparr> 1
       = Inl UndefinedBehaviour"
proof -
  have i: "BinArithDecoder_init [0, 0, 0] = Inl UndefinedBehaviour"
    by (simp add: init_short)
  have j: "BinArithDecoder_init [0, 0, 0, 0]
       = Inr \<lparr>dec_code = 0, dec_lo = 0, dec_hi = NOT 0, dec_bytes = [0, 0, 0, 0], dec_read_pos = 4\<rparr>"
    by (simp add: init_four)
  have d: "BinArithDecoder_decode
        \<lparr>dec_code = 0, dec_lo = 0, dec_hi = NOT 0, dec_bytes = [0, 0, 0, 0], dec_read_pos = 4\<rparr> 1
       = Inl UndefinedBehaviour"
    by code_simp
  have n1: "\<not> (\<exists>err. BinArithDecoder_init [0, 0, 0] = Inl err \<and> reported err)"
    unfolding i by auto
  have n2: "\<not> (\<exists>err. BinArithDecoder_decode
        \<lparr>dec_code = 0, dec_lo = 0, dec_hi = NOT 0, dec_bytes = [0, 0, 0, 0], dec_read_pos = 4\<rparr> 1
        = Inl err \<and> reported err)"
    unfolding d by auto
  show ?thesis
    using n1 n2 i j d by blast
qed

text \<open>
  C4, amended. The decoder makes no check of its reads and has no error of its own. The
  constructor fails exactly when the source has fewer than four bytes, and a \<^verbatim>\<open>decode\<close>
  call fails exactly when its renormalization loop runs (\<open>renorm_iters\<close> of the bounds
  after the subdivision is positive) and needs a byte beyond the end of the source; the
  failure is then the unchecked index, which the code does not report; with enough
  bytes both return normally.
\<close>

theorem source_reads_are_unchecked:
  "(BinArithDecoder_init source = Inl err \<longleftrightarrow> err = UndefinedBehaviour \<and> length source < 4)
   \<and> (BinArithDecoder_decode d p = Inl err \<longleftrightarrow>
        err = UndefinedBehaviour \<and>
        0 < renorm_iters (dec_lo (snd (dec_split d p))) (dec_hi (snd (dec_split d p))) \<and>
        length (dec_bytes d) <
          dec_read_pos d + renorm_iters (dec_lo (snd (dec_split d p))) (dec_hi (snd (dec_split d p))))
   \<and> \<not> reported UndefinedBehaviour"
  using init_Inl [of source err] decode_Inl [of d p err] by simp

section \<open>Round trip with a bit-tree model\<close>

text \<open>The bit the encoder's loop takes from the value: \<^verbatim>\<open>(value & kMSB) != 0\<close>.\<close>

definition bt_bit :: "nat \<Rightarrow> nat \<Rightarrow> int" where
  "bt_bit NumBits val = (if val AND kMSB NumBits \<noteq> 0 then 1 else 0)"

text \<open>The array of a bit-tree model has its size, and every probability is inside the open range.\<close>

definition models_ok :: "nat \<Rightarrow> BitTreeModel \<Rightarrow> bool" where
  "models_ok NumBits ms \<longleftrightarrow>
     length ms = kNumSyms NumBits - 1 \<and> list_all (\<lambda>m. 0 < unat (prob m) \<and> unat (prob m) < 4096) ms"

text \<open>The context the encoder's loop ends with.\<close>

function bt_final :: "nat \<Rightarrow> nat \<Rightarrow> nat \<Rightarrow> nat" where
  "bt_final NumBits val ctx =
     (if 0 < ctx \<and> ctx < kNumSyms NumBits
      then bt_final NumBits (val + val) (ctx + (ctx + nat (bt_bit NumBits val)))
      else ctx)"
  by pat_completeness auto
termination
  by (relation "measure (\<lambda>(NumBits, val, ctx). kNumSyms NumBits - ctx)") auto

declare bt_final.simps [simp del]

lemma bt_bit_cases: "bt_bit NumBits val = 0 \<or> bt_bit NumBits val = 1"
  by (simp add: bt_bit_def)

lemma bt_encode_loop_stop:
  "\<not> ctx < kNumSyms NumBits \<Longrightarrow> bt_encode_loop NumBits Inertia st val ctx = Inr st"
  by (simp add: bt_encode_loop.simps [of NumBits Inertia st val ctx])

lemma bt_encode_loop_step:
  assumes "ctx < kNumSyms NumBits" "0 < ctx" "ctx - 1 < length ms"
  shows "bt_encode_loop NumBits Inertia (ms, enc) val ctx =
     bt_encode_loop NumBits Inertia
       (ms[ctx - 1 := adapt Inertia (ms ! (ctx - 1)) (bt_bit NumBits val)],
        BinArithEncoder_encode enc (bt_bit NumBits val) (ucast (prob (ms ! (ctx - 1)))))
       (val + val) (ctx + (ctx + nat (bt_bit NumBits val)))"
  using assms
  by (simp add: bt_encode_loop.simps [of NumBits Inertia "(ms, enc)" val ctx]
        BinShiftModel_encode_def bt_bit_def Let_def)

lemma bt_decode_loop_stop:
  "\<not> ctx < kNumSyms NumBits \<Longrightarrow> bt_decode_loop NumBits Inertia st ctx = Inr (ctx, st)"
  by (simp add: bt_decode_loop.simps [of NumBits Inertia st ctx])

lemma bt_decode_loop_step:
  assumes "ctx < kNumSyms NumBits" "0 < ctx" "ctx - 1 < length ms"
    "BinArithDecoder_decode dec (ucast (prob (ms ! (ctx - 1)))) = Inr (b, dec')"
  shows "bt_decode_loop NumBits Inertia (ms, dec) ctx =
     bt_decode_loop NumBits Inertia (ms[ctx - 1 := adapt Inertia (ms ! (ctx - 1)) b], dec')
       (ctx + (ctx + nat b))"
  using assms
  by (simp add: bt_decode_loop.simps [of NumBits Inertia "(ms, dec)" ctx] BinShiftModel_decode_def)

lemma models_ok_index:
  assumes "models_ok NumBits ms" "ctx < kNumSyms NumBits" "0 < ctx"
  shows "ctx - 1 < length ms"
    and "0 < unat (prob (ms ! (ctx - 1)))" and "unat (prob (ms ! (ctx - 1))) < 4096"
    and "(ucast (prob (ms ! (ctx - 1))) :: u32) < kProbMax"
proof -
  show i: "ctx - 1 < length ms"
    using assms by (simp add: models_ok_def)
  show a: "0 < unat (prob (ms ! (ctx - 1)))" and b: "unat (prob (ms ! (ctx - 1))) < 4096"
    using assms(1) i by (simp_all add: models_ok_def list_all_length)
  show "(ucast (prob (ms ! (ctx - 1))) :: u32) < kProbMax"
    using a b prob_inside_iff [of "ms ! (ctx - 1)"] by simp
qed

lemma list_all_update: "list_all P xs \<Longrightarrow> P x \<Longrightarrow> list_all P (xs[i := x])"
  unfolding list_all_iff using set_update_subset_insert [of xs i x] by auto

lemma models_ok_update:
  assumes "1 \<le> Inertia" "models_ok NumBits ms" "ctx < kNumSyms NumBits" "0 < ctx"
  shows "models_ok NumBits (ms[ctx - 1 := adapt Inertia (ms ! (ctx - 1)) b])"
proof -
  note i = models_ok_index [OF assms(2-4)]
  have "0 < unat (prob (adapt Inertia (ms ! (ctx - 1)) b)) \<and>
      unat (prob (adapt Inertia (ms ! (ctx - 1)) b)) < 4096"
    by (rule adapt_range [OF assms(1) i(2,3)])
  then show ?thesis
    using assms(2) by (simp add: models_ok_def list_all_update)
qed

lemma bt_encode_loop_ok:
  assumes "1 \<le> Inertia"
  shows "0 < ctx \<Longrightarrow> models_ok NumBits ms \<Longrightarrow> enc_lo enc < enc_hi enc \<Longrightarrow>
     \<exists>ms' enc'. bt_encode_loop NumBits Inertia (ms, enc) val ctx = Inr (ms', enc') \<and>
       models_ok NumBits ms' \<and> enc_lo enc' < enc_hi enc' \<and> enc_steps enc enc'"
proof (induction "kNumSyms NumBits - ctx" arbitrary: ms enc val ctx rule: less_induct)
  case less
  show ?case
  proof (cases "ctx < kNumSyms NumBits")
    case False
    then show ?thesis
      using less.prems by (simp add: bt_encode_loop_stop enc_steps_refl)
  next
    case True
    let ?b = "bt_bit NumBits val"
    let ?m = "ms ! (ctx - 1)"
    let ?ms1 = "ms[ctx - 1 := adapt Inertia ?m ?b]"
    let ?enc1 = "BinArithEncoder_encode enc ?b (ucast (prob ?m))"
    let ?ctx1 = "ctx + (ctx + nat ?b)"
    note i = models_ok_index [OF less.prems(2) True less.prems(1)]
    have m: "kNumSyms NumBits - ?ctx1 < kNumSyms NumBits - ctx"
      using True less.prems(1) by simp
    have ok1: "models_ok NumBits ?ms1"
      by (rule models_ok_update [OF assms less.prems(2) True less.prems(1)])
    have apart: "enc_lo ?enc1 < enc_hi ?enc1"
      by (rule encode_keeps_apart [OF less.prems(3) i(4)])
    have pos: "0 < ?ctx1" using less.prems(1) by simp
    obtain ms' enc' where r: "bt_encode_loop NumBits Inertia (?ms1, ?enc1) (val + val) ?ctx1 = Inr (ms', enc')"
      "models_ok NumBits ms'" "enc_lo enc' < enc_hi enc'" "enc_steps ?enc1 enc'"
      using less.hyps [OF m pos ok1 apart] by blast
    have "enc_steps enc enc'"
      by (rule enc_steps_step [OF i(4) r(4)])
    then show ?thesis
      using r(1-3) by (simp add: bt_encode_loop_step [OF True less.prems(1) i(1)])
  qed
qed

lemma bt_final_stop: "\<not> ctx < kNumSyms NumBits \<Longrightarrow> bt_final NumBits val ctx = ctx"
  by (simp add: bt_final.simps [of NumBits val ctx])

lemma bt_final_step:
  "0 < ctx \<Longrightarrow> ctx < kNumSyms NumBits \<Longrightarrow>
     bt_final NumBits val ctx =
       bt_final NumBits (val + val) (ctx + (ctx + nat (bt_bit NumBits val)))"
  by (simp add: bt_final.simps [of NumBits val ctx])

lemma bt_loop_sync:
  assumes "1 \<le> Inertia"
  shows "0 < ctx \<Longrightarrow> models_ok NumBits ms \<Longrightarrow> enc_lo enc < enc_hi enc \<Longrightarrow> synced B enc dec \<Longrightarrow>
     bt_encode_loop NumBits Inertia (ms, enc) val ctx = Inr (ms', enc') \<Longrightarrow>
     enc_steps enc' ef \<Longrightarrow> B = BinArithEncoder_finish ef \<Longrightarrow>
     \<exists>dec'. bt_decode_loop NumBits Inertia (ms, dec) ctx = Inr (bt_final NumBits val ctx, ms', dec') \<and>
       synced B enc' dec'"
proof (induction "kNumSyms NumBits - ctx" arbitrary: ms enc dec val ctx rule: less_induct)
  case less
  show ?case
  proof (cases "ctx < kNumSyms NumBits")
    case False
    then show ?thesis
      using less.prems(4,5) by (simp add: bt_encode_loop_stop bt_decode_loop_stop bt_final_stop)
  next
    case True
    let ?b = "bt_bit NumBits val"
    let ?m = "ms ! (ctx - 1)"
    let ?ms1 = "ms[ctx - 1 := adapt Inertia ?m ?b]"
    let ?enc1 = "BinArithEncoder_encode enc ?b (ucast (prob ?m))"
    let ?ctx1 = "ctx + (ctx + nat ?b)"
    note i = models_ok_index [OF less.prems(2) True less.prems(1)]
    have m: "kNumSyms NumBits - ?ctx1 < kNumSyms NumBits - ctx"
      using True less.prems(1) by simp
    have ok1: "models_ok NumBits ?ms1"
      by (rule models_ok_update [OF assms less.prems(2) True less.prems(1)])
    have apart: "enc_lo ?enc1 < enc_hi ?enc1"
      by (rule encode_keeps_apart [OF less.prems(3) i(4)])
    have pos: "0 < ?ctx1" using less.prems(1) by simp
    have r: "bt_encode_loop NumBits Inertia (?ms1, ?enc1) (val + val) ?ctx1 = Inr (ms', enc')"
      using less.prems(5) by (simp only: bt_encode_loop_step [OF True less.prems(1) i(1)])
    have "enc_steps ?enc1 enc'"
      using bt_encode_loop_ok [OF assms pos ok1 apart, of "val + val"] r by auto
    then have "enc_steps ?enc1 ef"
      using less.prems(6) by (rule enc_steps_trans)
    then have "future B ?enc1"
      using future_steps [OF _ apart] less.prems(7) by simp
    then obtain dec1 where d1: "BinArithDecoder_decode dec (ucast (prob ?m)) = Inr (?b, dec1)"
      "synced B ?enc1 dec1"
      using sync_encode [OF less.prems(4,3) i(4) bt_bit_cases] by blast
    obtain dec' where d': "bt_decode_loop NumBits Inertia (?ms1, dec1) ?ctx1
        = Inr (bt_final NumBits (val + val) ?ctx1, ms', dec')" "synced B enc' dec'"
      using less.hyps [OF m pos ok1 apart d1(2) r less.prems(6,7)] by blast
    show ?thesis
      using d' by (simp add: bt_decode_loop_step [OF True less.prems(1) i(1) d1(1)]
            bt_final_step [OF less.prems(1) True])
  qed
qed

lemma kMSB_power: "1 \<le> NumBits \<Longrightarrow> kMSB NumBits = 2 ^ (NumBits - 1)"
  by (cases NumBits) (simp_all add: kMSB_def kNumSyms_power)

lemma bt_bit_shifted:
  assumes "Suc j \<le> NumBits"
  shows "nat (bt_bit NumBits (val * 2 ^ (NumBits - Suc j))) = val div 2 ^ j mod 2"
proof -
  let ?v = "val * 2 ^ (NumBits - Suc j)"
  have n: "NumBits - 1 = (NumBits - Suc j) + j" using assms by simp
  have "?v div 2 ^ (NumBits - 1) = val div 2 ^ j"
    unfolding n power_add by simp
  then have "bit ?v (NumBits - 1) \<longleftrightarrow> odd (val div 2 ^ j)"
    by (simp only: bit_iff_odd)
  moreover have "?v AND kMSB NumBits \<noteq> 0 \<longleftrightarrow> bit ?v (NumBits - 1)"
    using assms by (simp add: kMSB_power and_exp_eq_0_iff_not_bit)
  ultimately show ?thesis
    by (auto simp: bt_bit_def odd_iff_mod_2_eq_one)
qed

lemma div_power_less:
  fixes val :: nat
  assumes "val < 2 ^ n" "j \<le> n"
  shows "val div 2 ^ j < 2 ^ (n - j)"
proof -
  have "(2 :: nat) ^ n = 2 ^ j * 2 ^ (n - j)"
    using assms(2) by (simp flip: power_add)
  then show ?thesis
    using assms(1) by (simp add: less_mult_imp_div_less mult.commute)
qed

lemma halves: "(x :: nat) div 2 + (x div 2 + x mod 2) = x"
  by presburger

lemma bt_final_value:
  "j \<le> NumBits \<Longrightarrow> val < 2 ^ NumBits \<Longrightarrow>
     bt_final NumBits (val * 2 ^ (NumBits - j)) (2 ^ (NumBits - j) + val div 2 ^ j) = 2 ^ NumBits + val"
proof (induction j)
  case 0
  show ?case by (simp add: bt_final_stop kNumSyms_power)
next
  case (Suc j)
  let ?v = "val * 2 ^ (NumBits - Suc j)"
  let ?c = "2 ^ (NumBits - Suc j) + val div 2 ^ Suc j"
  have j: "j \<le> NumBits" using Suc.prems(1) by simp
  have e: "NumBits - j = Suc (NumBits - Suc j)" using Suc.prems(1) by simp
  have pos: "0 < ?c" by simp
  have "val div 2 ^ Suc j < 2 ^ (NumBits - Suc j)"
    by (rule div_power_less [OF Suc.prems(2,1)])
  then have "?c < 2 ^ (NumBits - j)"
    unfolding e by simp
  moreover have "(2 :: nat) ^ (NumBits - j) \<le> 2 ^ NumBits"
    by (rule power_increasing) simp_all
  ultimately have "?c < 2 ^ NumBits"
    by (rule less_le_trans)
  then have lt: "?c < kNumSyms NumBits"
    by (simp only: kNumSyms_power)
  have "(2 :: nat) ^ Suc j = 2 ^ j * 2" by simp
  then have d: "val div 2 ^ Suc j = val div 2 ^ j div 2"
    by (simp only: div_mult2_eq)
  have "val div 2 ^ j div 2 + (val div 2 ^ j div 2 + val div 2 ^ j mod 2) = val div 2 ^ j"
    by (rule halves)
  then have c': "?c + (?c + nat (bt_bit NumBits ?v)) = 2 ^ (NumBits - j) + val div 2 ^ j"
    unfolding bt_bit_shifted [OF Suc.prems(1)] e d by simp
  have v': "?v + ?v = val * 2 ^ (NumBits - j)"
    unfolding e by simp
  show ?case
    using Suc.IH [OF j Suc.prems(2)]
    by (simp only: bt_final_step [OF pos lt] c' v')
qed

lemma bt_final_one:
  assumes "val < 2 ^ NumBits"
  shows "bt_final NumBits val 1 = 2 ^ NumBits + val"
proof -
  have "val div 2 ^ NumBits = 0" using assms by simp
  then show ?thesis
    using bt_final_value [OF order_refl assms] by simp
qed

lemma bt_encode_ok:
  assumes "1 \<le> Inertia" "val < 2 ^ NumBits" "models_ok NumBits ms" "enc_lo enc < enc_hi enc"
  shows "\<exists>ms' enc'. BitTreeModel_encode NumBits Inertia ms enc val = Inr (ms', enc') \<and>
       models_ok NumBits ms' \<and> enc_lo enc' < enc_hi enc' \<and> enc_steps enc enc'"
  using bt_encode_loop_ok [OF assms(1) zero_less_one assms(3,4), of val] assms(2)
  by (simp add: BitTreeModel_encode_def kNumSyms_power)

lemma bt_symbol_sync:
  assumes "1 \<le> Inertia" "val < 2 ^ NumBits" "models_ok NumBits ms" "enc_lo enc < enc_hi enc"
    "synced B enc dec" "BitTreeModel_encode NumBits Inertia ms enc val = Inr (ms', enc')"
    "enc_steps enc' ef" "B = BinArithEncoder_finish ef"
  shows "\<exists>dec'. BitTreeModel_decode NumBits Inertia ms dec = Inr (val, ms', dec') \<and> synced B enc' dec'"
proof -
  have "bt_encode_loop NumBits Inertia (ms, enc) val 1 = Inr (ms', enc')"
    using assms(2,6) by (simp add: BitTreeModel_encode_def kNumSyms_power)
  then obtain dec' where d: "bt_decode_loop NumBits Inertia (ms, dec) 1
      = Inr (bt_final NumBits val 1, ms', dec')" "synced B enc' dec'"
    using bt_loop_sync [OF assms(1) zero_less_one assms(3,4,5) _ assms(7,8)] by blast
  show ?thesis
    using d bt_final_one [OF assms(2)] by (simp add: BitTreeModel_decode_def kNumSyms_power)
qed

lemma bt_encode_all_ok:
  assumes "1 \<le> Inertia"
  shows "\<forall>v\<in>set vs. v < 2 ^ NumBits \<Longrightarrow> models_ok NumBits ms \<Longrightarrow> enc_lo enc < enc_hi enc \<Longrightarrow>
     \<exists>ms' enc'. bt_encode_all NumBits Inertia (ms, enc) vs = Inr (ms', enc') \<and> enc_steps enc enc'"
proof (induction vs arbitrary: ms enc)
  case Nil
  show ?case by (simp add: enc_steps_refl)
next
  case (Cons v vs)
  have v: "v < 2 ^ NumBits" and vs: "\<forall>v\<in>set vs. v < 2 ^ NumBits"
    using Cons.prems(1) by simp_all
  obtain ms1 enc1 where 1: "BitTreeModel_encode NumBits Inertia ms enc v = Inr (ms1, enc1)"
    "models_ok NumBits ms1" "enc_lo enc1 < enc_hi enc1" "enc_steps enc enc1"
    using bt_encode_ok [OF assms v Cons.prems(2,3)] by blast
  obtain ms' enc' where 2: "bt_encode_all NumBits Inertia (ms1, enc1) vs = Inr (ms', enc')"
    "enc_steps enc1 enc'"
    using Cons.IH [OF vs 1(2,3)] by blast
  show ?case
    using 1(1) 2(1) enc_steps_trans [OF 1(4) 2(2)] by simp
qed

lemma bt_all_sync:
  assumes "1 \<le> Inertia"
  shows "\<forall>v\<in>set vs. v < 2 ^ NumBits \<Longrightarrow> models_ok NumBits ms \<Longrightarrow> enc_lo enc < enc_hi enc \<Longrightarrow>
     synced B enc dec \<Longrightarrow> bt_encode_all NumBits Inertia (ms, enc) vs = Inr (msf, ef) \<Longrightarrow>
     B = BinArithEncoder_finish ef \<Longrightarrow>
     \<exists>st. bt_decode_all NumBits Inertia (ms, dec) (length vs) = Inr (vs, st)"
proof (induction vs arbitrary: ms enc dec)
  case Nil
  show ?case by simp
next
  case (Cons v vs)
  have v: "v < 2 ^ NumBits" and vs: "\<forall>v\<in>set vs. v < 2 ^ NumBits"
    using Cons.prems(1) by simp_all
  obtain ms1 enc1 where 1: "BitTreeModel_encode NumBits Inertia ms enc v = Inr (ms1, enc1)"
    "models_ok NumBits ms1" "enc_lo enc1 < enc_hi enc1"
    using bt_encode_ok [OF assms v Cons.prems(2,3)] by blast
  have r: "bt_encode_all NumBits Inertia (ms1, enc1) vs = Inr (msf, ef)"
    using Cons.prems(5) 1(1) by simp
  have s: "enc_steps enc1 ef"
    using bt_encode_all_ok [OF assms vs 1(2,3)] r by auto
  obtain dec1 where d1: "BitTreeModel_decode NumBits Inertia ms dec = Inr (v, ms1, dec1)"
    "synced B enc1 dec1"
    using bt_symbol_sync [OF assms v Cons.prems(2,3,4) 1(1) s Cons.prems(6)] by blast
  obtain st where "bt_decode_all NumBits Inertia (ms1, dec1) (length vs) = Inr (vs, st)"
    using Cons.IH [OF vs 1(2,3) d1(2) r Cons.prems(6)] by blast
  then show ?case
    using d1(1) by simp
qed

lemma models_ok_init: "models_ok NumBits (BitTreeModel_init NumBits)"
proof -
  have "unat (prob BinShiftModel_init) = 2048"
    by (simp add: BinShiftModel_init_def kProbMax_def kProbBits_def)
  then show ?thesis
    by (simp add: models_ok_def BitTreeModel_init_def list_all_length)
qed

text \<open>
  C2. For every \<^verbatim>\<open>NumBits\<close> from 1 to 16, every \<^verbatim>\<open>Inertia >= 1\<close> of the adaptive binary
  models and every sequence of symbols below \<^verbatim>\<open>2^NumBits\<close>: encoding the sequence with a
  fresh bit-tree model into an empty sink succeeds, and decoding as many symbols from
  the coded bytes with another fresh bit-tree model returns the sequence, in order.
\<close>

theorem bit_tree_round_trip:
  assumes "1 \<le> NumBits" and "NumBits \<le> 16" and "1 \<le> Inertia"
    and "\<forall>v\<in>set vs. v < 2 ^ NumBits"
  shows "\<exists>coded. encode_multisymbol NumBits Inertia vs = Inr coded \<and>
     decode_multisymbol NumBits Inertia (length vs) coded = Inr vs"
proof -
  let ?ms0 = "BitTreeModel_init NumBits"
  let ?e0 = "BinArithEncoder_init []"
  obtain msf ef where e: "bt_encode_all NumBits Inertia (?ms0, ?e0) vs = Inr (msf, ef)"
    "enc_steps ?e0 ef"
    using bt_encode_all_ok [OF assms(3,4) models_ok_init init_apart] by blast
  let ?B = "BinArithEncoder_finish ef"
  have c: "encode_multisymbol NumBits Inertia vs = Inr ?B"
    by (simp add: encode_multisymbol_def e(1))
  have "future ?B ?e0"
    using future_steps [OF e(2) init_apart] by simp
  then obtain d0 where d0: "BinArithDecoder_init ?B = Inr d0" "synced ?B ?e0 d0"
    using sync_init by blast
  obtain st where "bt_decode_all NumBits Inertia (?ms0, d0) (length vs) = Inr (vs, st)"
    using bt_all_sync [OF assms(3,4) models_ok_init init_apart d0(2) e(1) refl] by blast
  then have "decode_multisymbol NumBits Inertia (length vs) ?B = Inr vs"
    using d0(1) by (simp add: decode_multisymbol_def)
  then show ?thesis
    using c by blast
qed

lemma encode_multisymbol_example:
  "encode_multisymbol 3 4 [5, 0, 7, 2, 5, 5] = Inr [92, 139, 40, 188, 47, 0]"
  by code_simp

theorem bit_tree_round_trip_witness:
  "(1 :: nat) \<le> 3 \<and> (3 :: nat) \<le> 16 \<and> (1 :: nat) \<le> 4
   \<and> encode_multisymbol 3 4 [5, 0, 7, 2, 5, 5] = Inr [92, 139, 40, 188, 47, 0]
   \<and> decode_multisymbol 3 4 (length [5, 0, 7, 2, 5, 5 :: nat]) [92, 139, 40, 188, 47, 0]
       = Inr [5, 0, 7, 2, 5, 5]"
proof -
  have a: "(1 :: nat) \<le> 3" and b: "(3 :: nat) \<le> 16" and c: "(1 :: nat) \<le> 4"
    by simp_all
  have d: "\<forall>v\<in>set [5, 0, 7, 2, 5, 5 :: nat]. v < 2 ^ 3" by simp
  obtain coded where "encode_multisymbol 3 4 [5, 0, 7, 2, 5, 5] = Inr coded"
    "decode_multisymbol 3 4 (length [5, 0, 7, 2, 5, 5 :: nat]) coded = Inr [5, 0, 7, 2, 5, 5]"
    using bit_tree_round_trip [OF a b c d] by blast
  then show ?thesis
    using a b c encode_multisymbol_example by simp
qed

end
